theory Spec2Isabelle
  imports Main "HOL-Library.Word"
begin

unbundle bit_operations_syntax

section \<open>Bytes, slices and the struct module\<close>

type_synonym byte = "8 word"
type_synonym bytes = "byte list"

text \<open>The Python slice \<open>s[i:j]\<close> for indices \<open>0 \<le> i \<le> j\<close>: it is cut short at the
  end of \<open>s\<close> and never raises.\<close>

definition py_slice :: "'a list \<Rightarrow> nat \<Rightarrow> nat \<Rightarrow> 'a list" where
  "py_slice s i j = take (j - i) (drop i s)"

text \<open>\<open>int.from_bytes(b, 'little')\<close>, unsigned.\<close>

fun le_nat :: "bytes \<Rightarrow> nat" where
  "le_nat [] = 0"
| "le_nat (b # bs) = unat b + 256 * le_nat bs"

text \<open>\<open>int.from_bytes(b, 'little', signed=True)\<close>: two's complement on
  \<open>8 * len(b)\<close> bits.\<close>

definition le_int_signed :: "bytes \<Rightarrow> int" where
  "le_int_signed b =
     (if 2 * le_nat b < 2 ^ (8 * length b) then int (le_nat b)
      else int (le_nat b) - 2 ^ (8 * length b))"

text \<open>The exceptions of the two programs. \<open>micro.py\<close> runs under MicroPython, whose
  \<open>struct.unpack\<close> raises \<open>ValueError('buffer too small')\<close> on a buffer shorter than the
  format and accepts a longer one; \<open>ps.py\<close> runs under CPython, whose \<open>struct\<close> raises
  \<open>struct.error\<close> on a buffer of the wrong size and on a value out of range.\<close>

datatype struct_fault = BufferSize | OutOfRange

datatype error = ValueError string | StructError struct_fault

definition unpack_h :: "bytes \<Rightarrow> error + int" where
  "unpack_h b =
     (if length b < 2 then Inl (ValueError ''buffer too small'')
      else Inr (le_int_signed (take 2 b)))"

definition unpack_H :: "bytes \<Rightarrow> error + nat" where
  "unpack_H b =
     (if length b < 2 then Inl (ValueError ''buffer too small'')
      else Inr (le_nat (take 2 b)))"

definition unpack_I :: "bytes \<Rightarrow> error + nat" where
  "unpack_I b =
     (if length b < 4 then Inl (ValueError ''buffer too small'')
      else Inr (le_nat (take 4 b)))"

text \<open>A bytes literal such as \<open>b'RIFF'\<close>.\<close>

definition bytes_of :: "string \<Rightarrow> bytes" where
  "bytes_of s = map (\<lambda>c. of_nat (of_char c)) s"

section \<open>The sample assembler of \<open>I2SSlaveTX\<close>\<close>

text \<open>The words handed to \<open>self.sm.put\<close>, oldest first. Python integers are unbounded,
  so a word is an \<open>int\<close>.\<close>

type_synonym tx_log = "int list"

definition pack_sample :: "int \<Rightarrow> int \<Rightarrow> int" where
  "pack_sample left right = (push_bit 16 (left AND 0xFFFF)) OR (right AND 0xFFFF)"

definition send_sample :: "int \<Rightarrow> int \<Rightarrow> tx_log \<Rightarrow> tx_log" where
  "send_sample left right log = log @ [pack_sample left right]"

text \<open>The loop \<open>for i in range(0, len(samples), 4)\<close> of \<open>send_samples\<close>, from
  index \<open>i\<close> on.\<close>

function samples_loop :: "bytes \<Rightarrow> nat \<Rightarrow> tx_log \<Rightarrow> error + tx_log" where
  "samples_loop samples i log =
     (if i < length samples then
        (if i + 3 < length samples then
           (case unpack_h (py_slice samples i (i + 2)) of
              Inl e \<Rightarrow> Inl e
            | Inr left \<Rightarrow>
                (case unpack_h (py_slice samples (i + 2) (i + 4)) of
                   Inl e \<Rightarrow> Inl e
                 | Inr right \<Rightarrow> samples_loop samples (i + 4) (send_sample left right log)))
         else samples_loop samples (i + 4) log)
      else Inr log)"
  by pat_completeness auto
termination
  by (relation "measure (\<lambda>(samples, i, log). length samples - i)") auto

declare samples_loop.simps [simp del]

text \<open>\<open>send_samples\<close> takes a bytes buffer or a list of \<open>(left, right)\<close> tuples.\<close>

datatype samples_arg = Buffer bytes | Pairs "(int \<times> int) list"

fun send_samples :: "samples_arg \<Rightarrow> tx_log \<Rightarrow> error + tx_log" where
  "send_samples (Buffer samples) log = samples_loop samples 0 log"
| "send_samples (Pairs ps) log = Inr (foldl (\<lambda>l (left, right). send_sample left right l) log ps)"

text \<open>The streaming loop of \<open>stream_audio\<close> over the chunks that the successive
  \<open>sys.stdin.buffer.read(chunk_size)\<close> calls return: it stops at the first empty one.\<close>

fun stream_loop :: "bytes list \<Rightarrow> tx_log \<Rightarrow> error + tx_log" where
  "stream_loop [] log = Inr log"
| "stream_loop (data # rest) log =
     (if data = [] then Inr log
      else (case send_samples (Buffer data) log of
              Inl e \<Rightarrow> Inl e
            | Inr log' \<Rightarrow> stream_loop rest log'))"

section \<open>\<open>parse_wav_header\<close>\<close>

record wav_info =
  format :: nat
  channels :: nat
  sample_rate :: nat
  bits :: nat

text \<open>The body of the \<open>if chunk_id == b'fmt '\<close> branch: the four fields are unpacked in
  the order of the source, and the first short slice raises.\<close>

definition decode_fmt :: "bytes \<Rightarrow> error + wav_info" where
  "decode_fmt fmt_data =
     (case unpack_H (py_slice fmt_data 0 2) of
        Inl e \<Rightarrow> Inl e
      | Inr audio_format \<Rightarrow>
     (case unpack_H (py_slice fmt_data 2 4) of
        Inl e \<Rightarrow> Inl e
      | Inr chans \<Rightarrow>
     (case unpack_I (py_slice fmt_data 4 8) of
        Inl e \<Rightarrow> Inl e
      | Inr rate \<Rightarrow>
     (case unpack_H (py_slice fmt_data 14 16) of
        Inl e \<Rightarrow> Inl e
      | Inr bits_per_sample \<Rightarrow>
          Inr \<lparr>format = audio_format, channels = chans,
               sample_rate = rate, bits = bits_per_sample\<rparr>))))"

text \<open>One pass through the body of the \<open>while\<close> loop at \<open>pos\<close>: \<open>Inl\<close> when the
  function leaves there, by \<open>return\<close> or by an exception of \<open>struct.unpack\<close>, and
  \<open>Inr\<close> with the new value of \<open>pos\<close> when the loop goes on.\<close>

definition chunk_step :: "bytes \<Rightarrow> nat \<Rightarrow> (error + wav_info) + nat" where
  "chunk_step header pos =
     (let chunk_id = py_slice header pos (pos + 4)
      in case unpack_I (py_slice header (pos + 4) (pos + 8)) of
           Inl e \<Rightarrow> Inl (Inl e)
         | Inr chunk_size \<Rightarrow>
             (if chunk_id = bytes_of ''fmt ''
              then Inl (decode_fmt (py_slice header (pos + 8) (pos + 8 + chunk_size)))
              else Inr (pos + 8 + chunk_size)))"

text \<open>The \<open>while pos < len(header) - 8\<close> loop. The difference \<open>len(header) - 8\<close> is
  negative on a short header, so the test is on \<open>int\<close>. A run that does not return is
  the value \<open>None\<close>.\<close>

partial_function (option) fmt_loop :: "bytes \<Rightarrow> nat \<Rightarrow> (error + wav_info) option" where
  "fmt_loop header pos =
     (if int pos < int (length header) - 8 then
        (case chunk_step header pos of
           Inl r \<Rightarrow> Some r
         | Inr pos' \<Rightarrow> fmt_loop header pos')
      else Some (Inl (ValueError ''No fmt chunk found'')))"

declare fmt_loop.simps [code]

definition parse_wav_header :: "bytes \<Rightarrow> (error + wav_info) option" where
  "parse_wav_header header =
     (if py_slice header 0 4 \<noteq> bytes_of ''RIFF'' \<or> py_slice header 8 12 \<noteq> bytes_of ''WAVE''
      then Some (Inl (ValueError ''Not a valid WAV file''))
      else fmt_loop header 12)"

section \<open>The PIO program \<open>i2s_slave_tx\<close> and its state machine\<close>

text \<open>The instructions that the program uses, written as in the source.
  \<open>Wait polarity Pin index\<close> is \<open>wait(polarity, pin, index)\<close>, \<open>Set_x v\<close> is
  \<open>set(x, v)\<close>, \<open>Out_pins n\<close> is \<open>out(pins, n)\<close> and \<open>Jmp_x_dec l\<close> is
  \<open>jmp(x_dec, l)\<close>.\<close>

datatype wait_src = Pin | Gpio

datatype pio_asm =
    Wait nat wait_src nat
  | Set_x nat
  | Label string
  | Out_pins nat
  | Jmp_x_dec string

definition i2s_slave_tx :: "pio_asm list" where
  "i2s_slave_tx =
     [Wait 0 Pin 0,
      Set_x 15,
      Label ''left_loop'',
      Wait 1 Pin 1,
      Out_pins 1,
      Wait 0 Pin 1,
      Jmp_x_dec ''left_loop'',
      Wait 1 Pin 0,
      Set_x 15,
      Label ''right_loop'',
      Wait 1 Pin 1,
      Out_pins 1,
      Wait 0 Pin 1,
      Jmp_x_dec ''right_loop'']"

text \<open>A label takes no program memory: its address is the number of instructions
  before it.\<close>

fun is_label :: "pio_asm \<Rightarrow> bool" where
  "is_label (Label l) = True"
| "is_label _ = False"

fun label_addr :: "string \<Rightarrow> pio_asm list \<Rightarrow> nat" where
  "label_addr l [] = 0"
| "label_addr l (i # rest) =
     (if i = Label l then 0
      else if is_label i then label_addr l rest
      else Suc (label_addr l rest))"

definition instructions :: "pio_asm list \<Rightarrow> pio_asm list" where
  "instructions prog = filter (\<lambda>i. \<not> is_label i) prog"

text \<open>The configuration that \<open>I2SSlaveTX.__init__\<close> gives to \<open>StateMachine\<close>, with pins
  as GPIO numbers: \<open>in_base=self.bck_pin\<close>, \<open>out_base=self.sd_pin\<close>,
  \<open>jmp_pin=self.ws_pin\<close>, \<open>out_shiftdir=PIO.SHIFT_LEFT\<close>. The decorator enables neither
  autopull nor autopush.\<close>

record sm_config =
  in_base :: nat
  out_base :: nat
  jmp_pin :: nat
  out_shift_left :: bool

definition BCK_PIN :: nat where "BCK_PIN = 0"
definition WS_PIN :: nat where "WS_PIN = 1"
definition SD_PIN :: nat where "SD_PIN = 2"

definition I2SSlaveTX_config :: "nat \<Rightarrow> nat \<Rightarrow> nat \<Rightarrow> sm_config" where
  "I2SSlaveTX_config bck_pin ws_pin sd_pin =
     \<lparr>in_base = bck_pin, out_base = sd_pin, jmp_pin = ws_pin, out_shift_left = True\<rparr>"

text \<open>The state of the state machine: program counter, scratch register \<open>x\<close>, output
  shift register, and the level driven on the pin \<open>out_base\<close>.\<close>

record sm_state =
  pc :: nat
  x :: "32 word"
  osr :: "32 word"
  out_pin :: bool

text \<open>One clock cycle, with \<open>gpio p\<close> the level of GPIO \<open>p\<close> in that cycle. A \<open>wait\<close>
  on \<open>pin\<close> reads the GPIO \<open>in_base + index\<close> (modulo 32) and stalls until it has the
  polarity; \<open>out(pins, n)\<close> shifts \<open>n\<close> bits out of the shift register, from its top when
  shifting left; \<open>jmp(x_dec, l)\<close> jumps when \<open>x\<close> is not zero and decrements \<open>x\<close> in
  either case. After the last instruction the program wraps to the first. The program
  counter of the hardware never leaves the program; a state whose \<open>pc\<close> is outside it
  is left as it is.\<close>

definition pio_step :: "sm_config \<Rightarrow> pio_asm list \<Rightarrow> (nat \<Rightarrow> bool) \<Rightarrow> sm_state \<Rightarrow> sm_state" where
  "pio_step cfg prog gpio s =
     (let code = instructions prog;
          nxt = (if Suc (pc s) < length code then Suc (pc s) else 0)
      in if length code \<le> pc s then s
         else case code ! pc s of
           Wait polarity src index \<Rightarrow>
             (let p = (case src of Pin \<Rightarrow> (in_base cfg + index) mod 32 | Gpio \<Rightarrow> index)
              in if gpio p = (polarity = 1) then s\<lparr>pc := nxt\<rparr> else s)
         | Set_x v \<Rightarrow> s\<lparr>pc := nxt, x := of_nat v\<rparr>
         | Label l \<Rightarrow> s
         | Out_pins n \<Rightarrow>
             (if out_shift_left cfg
              then s\<lparr>pc := nxt, osr := push_bit n (osr s),
                     out_pin := bit (drop_bit (32 - n) (osr s)) 0\<rparr>
              else s\<lparr>pc := nxt, osr := drop_bit n (osr s), out_pin := bit (osr s) 0\<rparr>)
         | Jmp_x_dec l \<Rightarrow>
             s\<lparr>pc := (if x s \<noteq> 0 then label_addr l prog else nxt), x := x s - 1\<rparr>)"

text \<open>A run over the GPIO levels of successive cycles.\<close>

fun pio_run :: "sm_config \<Rightarrow> pio_asm list \<Rightarrow> (nat \<Rightarrow> bool) list \<Rightarrow> sm_state \<Rightarrow> sm_state" where
  "pio_run cfg prog [] s = s"
| "pio_run cfg prog (g # gs) s = pio_run cfg prog gs (pio_step cfg prog g s)"

text \<open>GPIO levels with bit clock and word select on the default pins.\<close>

definition levels :: "bool \<Rightarrow> bool \<Rightarrow> nat \<Rightarrow> bool" where
  "levels bck ws p = (if p = BCK_PIN then bck else if p = WS_PIN then ws else False)"

text \<open>The state machine at the first instruction, with \<open>w\<close> in the output shift
  register.\<close>

definition sm_init :: "32 word \<Rightarrow> sm_state" where
  "sm_init w = \<lparr>pc = 0, x = 0, osr = w, out_pin = False\<rparr>"

section \<open>The sample fifo\<close>

text \<open>Modelled from the spec: the SampleFifo of sections 3 and 4.2. In the program it
  is the TX FIFO of the PIO hardware behind \<open>self.sm.put\<close>, of which the repository
  holds only the caller \<open>send_sample\<close>. It is a bounded queue of capacity \<open>capacity\<close>; \<open>push\<close> appends and blocks
  while the fifo is full, \<open>pop\<close> removes the oldest entry and blocks while it is empty.
  An operation that blocks does not take place: its result is \<open>None\<close>.\<close>

record sample_fifo =
  capacity :: nat
  entries :: "int list"

definition new_fifo :: "nat \<Rightarrow> sample_fifo" where
  "new_fifo c = \<lparr>capacity = c, entries = []\<rparr>"

definition push :: "int \<Rightarrow> sample_fifo \<Rightarrow> sample_fifo option" where
  "push f q =
     (if length (entries q) < capacity q then Some (q\<lparr>entries := entries q @ [f]\<rparr>)
      else None)"

definition pop :: "sample_fifo \<Rightarrow> (int \<times> sample_fifo) option" where
  "pop q =
     (case entries q of
        [] \<Rightarrow> None
      | f # rest \<Rightarrow> Some (f, q\<lparr>entries := rest\<rparr>))"

text \<open>An interleaving of the producer's pushes and the consumer's pops is a list of
  operations in the order in which they take place. \<open>run_ops\<close> runs it and collects the
  popped frames, oldest first; it is \<open>None\<close> when an operation of the list would have
  to block at its place, which is then not an interleaving that can happen.\<close>

datatype fifo_op = Push int | Pop

fun run_ops :: "fifo_op list \<Rightarrow> sample_fifo \<Rightarrow> int list \<Rightarrow> (sample_fifo \<times> int list) option" where
  "run_ops [] q popped = Some (q, popped)"
| "run_ops (Push f # ops) q popped =
     (case push f q of
        None \<Rightarrow> None
      | Some q' \<Rightarrow> run_ops ops q' popped)"
| "run_ops (Pop # ops) q popped =
     (case pop q of
        None \<Rightarrow> None
      | Some (f, q') \<Rightarrow> run_ops ops q' (popped @ [f]))"

fun pushed :: "fifo_op list \<Rightarrow> int list" where
  "pushed [] = []"
| "pushed (Push f # ops) = f # pushed ops"
| "pushed (Pop # ops) = pushed ops"

section \<open>\<open>convert_to_stereo_16bit\<close> of \<open>ps.py\<close>\<close>

text \<open>What the \<open>wave\<close> reader hands to the function: the results of
  \<open>getnchannels()\<close>, \<open>getsampwidth()\<close>, \<open>getframerate()\<close> and
  \<open>readframes(getnframes())\<close>.\<close>

record wave_file =
  getnchannels :: nat
  getsampwidth :: nat
  getframerate :: nat
  readframes :: bytes

text \<open>\<open>n\<close> bytes of \<open>v\<close>, least significant first.\<close>

fun le_bytes :: "nat \<Rightarrow> nat \<Rightarrow> bytes" where
  "le_bytes 0 v = []"
| "le_bytes (Suc n) v = of_nat (v mod 256) # le_bytes n (v div 256)"

definition int16 :: "int \<Rightarrow> bool" where
  "int16 v = (- 32768 \<le> v \<and> v \<le> 32767)"

text \<open>CPython's \<open>struct.pack('<I', v)\<close> and \<open>struct.pack('<H', v)\<close> for \<open>v \<ge> 0\<close>, and
  \<open>struct.pack(f'<{len(vs)}h', *vs)\<close>: a value that does not fit raises.\<close>

definition pack_I :: "nat \<Rightarrow> error + bytes" where
  "pack_I v = (if v < 2 ^ 32 then Inr (le_bytes 4 v) else Inl (StructError OutOfRange))"

definition pack_H :: "nat \<Rightarrow> error + bytes" where
  "pack_H v = (if v < 2 ^ 16 then Inr (le_bytes 2 v) else Inl (StructError OutOfRange))"

definition pack_hs :: "int list \<Rightarrow> error + bytes" where
  "pack_hs vs =
     (if list_all int16 vs then Inr (concat (map (\<lambda>v. le_bytes 2 (nat (v mod 2 ^ 16))) vs))
      else Inl (StructError OutOfRange))"

text \<open>The slices \<open>b[i:i+n]\<close> for \<open>i in range(0, len(b), n)\<close>.\<close>

function groups_of :: "nat \<Rightarrow> bytes \<Rightarrow> bytes list" where
  "groups_of n b = (if n = 0 \<or> b = [] then [] else take n b # groups_of n (drop n b))"
  by pat_completeness auto
termination
  by (relation "measure (\<lambda>(n, b). length b)") auto

declare groups_of.simps [simp del]

text \<open>CPython's \<open>struct.unpack(f'<{len(b)//2}h', b)\<close> and
  \<open>struct.unpack(f'<{len(b)//4}i', b)\<close>: the buffer must have exactly the size of the
  format.\<close>

definition unpack_hs :: "bytes \<Rightarrow> error + int list" where
  "unpack_hs b =
     (if length b = 2 * (length b div 2) then Inr (map le_int_signed (groups_of 2 b))
      else Inl (StructError BufferSize))"

definition unpack_is :: "bytes \<Rightarrow> error + int list" where
  "unpack_is b =
     (if length b = 4 * (length b div 4) then Inr (map le_int_signed (groups_of 4 b))
      else Inl (StructError BufferSize))"

definition bind_e :: "error + 'a \<Rightarrow> ('a \<Rightarrow> error + 'b) \<Rightarrow> error + 'b" where
  "bind_e r f = (case r of Inl e \<Rightarrow> Inl e | Inr v \<Rightarrow> f v)"

text \<open>The three sample conversions.\<close>

definition conv_8bit :: "byte \<Rightarrow> int" where
  "conv_8bit s = (int (unat s) - 128) * 256"

definition conv_24bit :: "int \<Rightarrow> int" where
  "conv_24bit s = s div 256"

definition conv_32bit :: "int \<Rightarrow> int" where
  "conv_32bit s = s div 65536"

text \<open>The \<open>if sampwidth == 1 ... elif sampwidth == 3 ... elif sampwidth == 4\<close> chain:
  the new value of \<open>frames\<close>.\<close>

definition to_16bit :: "nat \<Rightarrow> bytes \<Rightarrow> error + bytes" where
  "to_16bit sampwidth frames =
     (if sampwidth = 1 then pack_hs (map conv_8bit frames)
      else if sampwidth = 3 then
        pack_hs (map conv_24bit (map le_int_signed (groups_of 3 frames)))
      else if sampwidth = 4 then
        bind_e (unpack_is frames) (\<lambda>samples_32. pack_hs (map conv_32bit samples_32))
      else Inr frames)"

text \<open>The body of \<open>if channels == 1\<close>: the new value of \<open>frames\<close>.\<close>

definition to_stereo :: "bytes \<Rightarrow> error + bytes" where
  "to_stereo frames =
     bind_e (unpack_hs frames) (\<lambda>samples. pack_hs (concat (map (\<lambda>s. [s, s]) samples)))"

text \<open>The output: RIFF header, \<open>fmt \<close> chunk and \<open>data\<close> chunk, built in the order of
  the source.\<close>

definition wav_output :: "nat \<Rightarrow> nat \<Rightarrow> bytes \<Rightarrow> error + bytes" where
  "wav_output nchannels framerate frames =
     bind_e (pack_I (36 + length frames)) (\<lambda>riff_size.
     bind_e (pack_I 16) (\<lambda>fmt_size.
     bind_e (pack_H 1) (\<lambda>audio_format.
     bind_e (pack_H nchannels) (\<lambda>nch.
     bind_e (pack_I framerate) (\<lambda>rate.
     bind_e (pack_I (framerate * nchannels * 2)) (\<lambda>byte_rate.
     bind_e (pack_H (nchannels * 2)) (\<lambda>block_align.
     bind_e (pack_H 16) (\<lambda>bits_per_sample.
     bind_e (pack_I (length frames)) (\<lambda>data_size.
       Inr (bytes_of ''RIFF'' @ riff_size @ bytes_of ''WAVE''
            @ bytes_of ''fmt '' @ fmt_size @ audio_format @ nch @ rate @ byte_rate
            @ block_align @ bits_per_sample
            @ bytes_of ''data'' @ data_size @ frames))))))))))"

definition convert_to_stereo_16bit :: "wave_file \<Rightarrow> error + bytes" where
  "convert_to_stereo_16bit wav =
     bind_e (to_16bit (getsampwidth wav) (readframes wav)) (\<lambda>frames.
       if getnchannels wav = 1
       then bind_e (to_stereo frames) (\<lambda>frames. wav_output 2 (getframerate wav) frames)
       else wav_output (getnchannels wav) (getframerate wav) frames)"

section \<open>Notions of the specification\<close>

text \<open>The frames of a byte string: consecutive 4-byte groups, 2 bytes little-endian
  signed left, then 2 bytes little-endian signed right; a final incomplete group is
  dropped.\<close>

fun frames_of :: "bytes \<Rightarrow> (int \<times> int) list" where
  "frames_of (a # b # c # d # rest) =
     (le_int_signed [a, b], le_int_signed [c, d]) # frames_of rest"
| "frames_of _ = []"

definition frame_words :: "bytes \<Rightarrow> int list" where
  "frame_words bs = map (\<lambda>(left, right). pack_sample left right) (frames_of bs)"

text \<open>A half of a packed word read back as a signed 16-bit sample.\<close>

definition to_signed16 :: "int \<Rightarrow> int" where
  "to_signed16 u = (if u < 32768 then u else u - 65536)"

text \<open>The number of whole frames in the data that the reader returned, and the reader's
  contract on a file that is not cut short: \<open>readframes\<close> returns whole frames of
  \<open>nchannels * sampwidth\<close> bytes each.\<close>

definition wave_frames :: "wave_file \<Rightarrow> nat" where
  "wave_frames wav = length (readframes wav) div (getnchannels wav * getsampwidth wav)"

definition whole_frames :: "wave_file \<Rightarrow> bool" where
  "whole_frames wav =
     (length (readframes wav) = wave_frames wav * (getnchannels wav * getsampwidth wav))"

text \<open>A chunk of a RIFF file: 4-byte id, little-endian 32-bit length, payload.\<close>

definition chunk_bytes :: "bytes \<times> bytes \<Rightarrow> bytes" where
  "chunk_bytes c = fst c @ le_bytes 4 (length (snd c)) @ snd c"

definition unknown_chunk :: "bytes \<times> bytes \<Rightarrow> bool" where
  "unknown_chunk c =
     (length (fst c) = 4 \<and> fst c \<noteq> bytes_of ''fmt '' \<and> length (snd c) < 2 ^ 32)"

text \<open>The payload of a \<open>fmt \<close> chunk: format code at offset 0, channel count at 2,
  sample rate at 4, byte rate at 8, block align at 12, bits per sample at 14, and any
  extension bytes after them.\<close>

definition fmt_payload :: "nat \<Rightarrow> nat \<Rightarrow> nat \<Rightarrow> nat \<Rightarrow> nat \<Rightarrow> nat \<Rightarrow> bytes \<Rightarrow> bytes" where
  "fmt_payload fmt_code nch rate byte_rate block_align nbits extension =
     le_bytes 2 fmt_code @ le_bytes 2 nch @ le_bytes 4 rate @ le_bytes 4 byte_rate
     @ le_bytes 2 block_align @ le_bytes 2 nbits @ extension"

text \<open>A WAV byte sequence: the 12-byte file header with any size field, chunks that are
  not \<open>fmt \<close> chunks, the \<open>fmt \<close> chunk, and whatever follows it.\<close>

definition wav_bytes :: "bytes \<Rightarrow> (bytes \<times> bytes) list \<Rightarrow> bytes \<Rightarrow> bytes \<Rightarrow> bytes" where
  "wav_bytes riff_size before fmt rest =
     bytes_of ''RIFF'' @ riff_size @ bytes_of ''WAVE''
     @ concat (map chunk_bytes before) @ chunk_bytes (bytes_of ''fmt '', fmt) @ rest"

text \<open>The chunk walk: the offset, id and declared length of every chunk header that a
  walk from \<open>pos\<close> reaches, each chunk skipped by its declared length plus the 8 bytes of
  its header, until fewer than 9 bytes remain.\<close>

function chunk_walk :: "bytes \<Rightarrow> nat \<Rightarrow> (nat \<times> bytes \<times> nat) list" where
  "chunk_walk header pos =
     (if pos + 8 < length header
      then (pos, py_slice header pos (pos + 4), le_nat (py_slice header (pos + 4) (pos + 8)))
           # chunk_walk header (pos + 8 + le_nat (py_slice header (pos + 4) (pos + 8)))
      else [])"
  by pat_completeness auto
termination
  by (relation "measure (\<lambda>(header, pos). length header - pos)") auto

declare chunk_walk.simps [simp del]

definition has_magic :: "bytes \<Rightarrow> bool" where
  "has_magic header =
     (py_slice header 0 4 = bytes_of ''RIFF'' \<and> py_slice header 8 12 = bytes_of ''WAVE'')"

text \<open>The first \<open>fmt \<close> chunk that the walk from offset 12 reaches, if any, and the
  part of its payload that the input holds.\<close>

definition first_fmt :: "bytes \<Rightarrow> (nat \<times> bytes \<times> nat) option" where
  "first_fmt header = find (\<lambda>c. fst (snd c) = bytes_of ''fmt '') (chunk_walk header 12)"

definition fmt_data_of :: "bytes \<Rightarrow> nat \<times> bytes \<times> nat \<Rightarrow> bytes" where
  "fmt_data_of header c = py_slice header (fst c + 8) (fst c + 8 + snd (snd c))"

definition is_value_error :: "(error + wav_info) option \<Rightarrow> bool" where
  "is_value_error r = (case r of Some (Inl (ValueError m)) \<Rightarrow> True | _ \<Rightarrow> False)"

section \<open>Example inputs\<close>

text \<open>The first 44 bytes, as \<open>stream_audio\<close> reads them, of a WAV file in which a
  4-byte \<open>LIST\<close> chunk comes before the \<open>fmt \<close> chunk: the window ends 12 bytes into
  the payload of the \<open>fmt \<close> chunk.\<close>

definition window_wav :: bytes where
  "window_wav = bytes_of ''RIFF'' @ [0x28, 0, 0, 0] @ bytes_of ''WAVE''
              @ bytes_of ''LIST'' @ [4, 0, 0, 0] @ [1, 2, 3, 4]
              @ bytes_of ''fmt '' @ [16, 0, 0, 0]
              @ [1, 0, 2, 0, 0x44, 0xAC, 0, 0, 0x10, 0xB1, 0x02, 0]"

text \<open>The end-to-end scenario: PCM, 2 channels, 44100 Hz, 16 bits, and a \<open>data\<close> chunk
  of 8 bytes.\<close>

definition example_payload :: bytes where
  "example_payload = [0x01, 0x00, 0x02, 0x00, 0xFF, 0xFF, 0x00, 0x80]"

definition example_wav :: bytes where
  "example_wav =
     bytes_of ''RIFF'' @ [0x2C, 0, 0, 0] @ bytes_of ''WAVE''
     @ bytes_of ''fmt '' @ [16, 0, 0, 0]
     @ [1, 0, 2, 0, 0x44, 0xAC, 0, 0, 0x10, 0xB1, 0x02, 0, 4, 0, 16, 0]
     @ bytes_of ''data'' @ [8, 0, 0, 0] @ example_payload"

text \<open>Inputs of \<open>convert_to_stereo_16bit\<close>: three frames of 8-bit mono; one 16-bit
  stereo frame at a sample rate of \<open>2^30\<close> Hz; a 16-bit stereo file cut short in the
  middle of its second frame; and \<open>2^30\<close> frames of 8-bit mono.\<close>

definition mono_8bit :: wave_file where
  "mono_8bit = \<lparr>getnchannels = 1, getsampwidth = 1, getframerate = 8000,
                 readframes = [0, 128, 255]\<rparr>"

definition fast_rate :: wave_file where
  "fast_rate = \<lparr>getnchannels = 2, getsampwidth = 2, getframerate = 2 ^ 30,
                 readframes = [1, 0, 2, 0]\<rparr>"

definition cut_short :: wave_file where
  "cut_short = \<lparr>getnchannels = 2, getsampwidth = 2, getframerate = 44100,
                 readframes = [1, 0, 2, 0, 3, 0]\<rparr>"

definition very_long :: wave_file where
  "very_long = \<lparr>getnchannels = 1, getsampwidth = 1, getframerate = 8000,
                 readframes = replicate (2 ^ 30) 128\<rparr>"

section \<open>Packing a stereo sample\<close>

lemma and_ffff: "(v::int) AND 0xFFFF = v mod 2 ^ 16"
proof -
  have m: "(0xFFFF::int) = mask 16"
    by (simp add: mask_eq_exp_minus_1)
  have "v AND mask 16 = v mod 2 ^ 16"
    by (simp only: take_bit_eq_mask [symmetric] take_bit_eq_mod)
  then show ?thesis
    by (simp only: m)
qed

lemma pack_sample_arith: "pack_sample l r = (l mod 2 ^ 16) * 2 ^ 16 + r mod 2 ^ 16"
proof -
  have "push_bit 16 (take_bit 16 l) + take_bit 16 r = push_bit 16 (take_bit 16 l) OR take_bit 16 r"
    by (rule disjunctive_add) (auto simp add: bit_push_bit_iff bit_take_bit_iff)
  then show ?thesis
    unfolding pack_sample_def and_ffff
    by (simp add: take_bit_eq_mod push_bit_eq_mult)
qed

lemma to_signed16_mod:
  assumes "int16 v"
  shows "to_signed16 (v mod 2 ^ 16) = v"
proof (cases "0 \<le> v")
  case True
  with assms have "v mod 65536 = v"
    by (simp add: int16_def)
  with assms True show ?thesis
    by (simp add: to_signed16_def int16_def)
next
  case False
  have "v mod 65536 = (v + 65536) mod 65536"
    by simp
  also have "\<dots> = v + 65536"
    by (rule mod_pos_pos_trivial) (use assms False in \<open>simp_all add: int16_def\<close>)
  finally show ?thesis
    using assms False by (simp add: to_signed16_def int16_def)
qed

text \<open>C7. \<open>send_sample\<close> puts the single word \<open>(left mod 2^16) * 2^16 + right mod 2^16\<close>. The
  word lies in \<open>[0, 2^32)\<close>, its high half is \<open>left mod 2^16\<close> and its low half is
  \<open>right mod 2^16\<close>; for signed 16-bit samples these halves are the two's-complement bits
  of the samples, which read back as \<open>left\<close> and \<open>right\<close>.\<close>

theorem send_sample_packs:
  "send_sample left right log = log @ [(left mod 2 ^ 16) * 2 ^ 16 + right mod 2 ^ 16]
   \<and> 0 \<le> pack_sample left right \<and> pack_sample left right < 2 ^ 32
   \<and> pack_sample left right div 2 ^ 16 = left mod 2 ^ 16
   \<and> pack_sample left right mod 2 ^ 16 = right mod 2 ^ 16
   \<and> (int16 left \<and> int16 right \<longrightarrow>
        to_signed16 (pack_sample left right div 2 ^ 16) = left
      \<and> to_signed16 (pack_sample left right mod 2 ^ 16) = right)"
proof -
  define a where "a = left mod 2 ^ 16"
  define b where "b = right mod 2 ^ 16"
  have a: "0 \<le> a" "a < 65536" and b: "0 \<le> b" "b < 65536"
    by (simp_all add: a_def b_def)
  have p: "pack_sample left right = a * 65536 + b"
    by (simp add: pack_sample_arith a_def b_def)
  have d: "(a * 65536 + b) div 65536 = a"
    using b by simp
  have m: "(a * 65536 + b) mod 65536 = b"
    using b by simp
  have lo: "0 \<le> a * 65536 + b"
    using a b by simp
  have hi: "a * 65536 + b < 4294967296"
    using a b by simp
  have ra: "int16 left \<Longrightarrow> to_signed16 a = left"
    unfolding a_def by (rule to_signed16_mod)
  have rb: "int16 right \<Longrightarrow> to_signed16 b = right"
    unfolding b_def by (rule to_signed16_mod)
  show ?thesis
    using lo hi ra rb by (simp add: send_sample_def p d m) (simp add: a_def b_def)
qed

theorem send_sample_packs_witness:
  "int16 (- 1) \<and> int16 (- 32768) \<and> send_sample (- 1) (- 32768) [] = [0xFFFF8000]
   \<and> to_signed16 (pack_sample (- 1) (- 32768) div 2 ^ 16) = - 1
   \<and> to_signed16 (pack_sample (- 1) (- 32768) mod 2 ^ 16) = - 32768"
  using send_sample_packs [of "- 1" "- 32768" "[]"]
  by (simp add: int16_def to_signed16_def)

section \<open>The sample assembler\<close>

lemma frames_of_short: "length bs < 4 \<Longrightarrow> frames_of bs = []"
  by (induction bs rule: frames_of.induct) simp_all

lemma drop_four:
  assumes "i + 3 < length s"
  shows "drop i s = s ! i # s ! (i + 1) # s ! (i + 2) # s ! (i + 3) # drop (i + 4) s"
proof -
  have "drop i s = s ! i # drop (Suc i) s"
    using assms by (simp add: Cons_nth_drop_Suc)
  also have "drop (Suc i) s = s ! (i + 1) # drop (Suc (Suc i)) s"
    using assms by (simp add: Cons_nth_drop_Suc)
  also have "drop (Suc (Suc i)) s = s ! (i + 2) # drop (Suc (Suc (Suc i))) s"
    using assms Cons_nth_drop_Suc [of "i + 2" s] by simp
  also have "drop (Suc (Suc (Suc i))) s = s ! (i + 3) # drop (i + 4) s"
    using assms Cons_nth_drop_Suc [of "i + 3" s] by (simp add: numeral_eq_Suc)
  finally show ?thesis .
qed

text \<open>One call of \<open>send_samples\<close> on a buffer puts the frames of what is left of that
  buffer, and never raises.\<close>

lemma samples_loop_frames:
  "samples_loop samples i log = Inr (log @ frame_words (drop i samples))"
proof (induction samples i log rule: samples_loop.induct)
  case (1 samples i log)
  show ?case
  proof (cases "i + 3 < length samples")
    case True
    note d = drop_four [OF True]
    have l: "py_slice samples i (i + 2) = [samples ! i, samples ! (i + 1)]"
      by (simp add: py_slice_def d)
    have "drop (i + 2) samples = drop 2 (drop i samples)"
      by (simp add: add.commute)
    then have r: "py_slice samples (i + 2) (i + 4) = [samples ! (i + 2), samples ! (i + 3)]"
      by (simp add: py_slice_def d)
    define left where "left = le_int_signed [samples ! i, samples ! (i + 1)]"
    define right where "right = le_int_signed [samples ! (i + 2), samples ! (i + 3)]"
    have ul: "unpack_h (py_slice samples i (i + 2)) = Inr left"
      unfolding l by (simp add: unpack_h_def left_def)
    have ur: "unpack_h (py_slice samples (i + 2) (i + 4)) = Inr right"
      unfolding r by (simp add: unpack_h_def right_def)
    have inside: "i < length samples"
      using True by simp
    from "1.IH"(1) [OF inside True ul ur]
    have ih: "samples_loop samples (i + 4) (send_sample left right log)
        = Inr (send_sample left right log @ frame_words (drop (i + 4) samples))" .
    have "frame_words (drop i samples)
        = pack_sample left right # frame_words (drop (i + 4) samples)"
      by (subst d) (simp add: frame_words_def left_def right_def)
    moreover have "samples_loop samples i log
        = samples_loop samples (i + 4) (send_sample left right log)"
      by (subst samples_loop.simps) (simp only: ul ur True inside if_True sum.case)
    ultimately show ?thesis
      using ih by (simp add: send_sample_def)
  next
    case False
    show ?thesis
    proof (cases "i < length samples")
      case True
      with False have "frames_of (drop i samples) = []" "frames_of (drop (i + 4) samples) = []"
        by (simp_all add: frames_of_short)
      with "1.IH"(2) [OF True False] True False show ?thesis
        by (subst samples_loop.simps) (simp add: frame_words_def)
    next
      case False
      then show ?thesis
        by (subst samples_loop.simps) (simp add: frame_words_def)
    qed
  qed
qed

lemma frames_of_append:
  "length xs mod 4 = 0 \<Longrightarrow> frames_of (xs @ ys) = frames_of xs @ frames_of ys"
proof (induction xs rule: frames_of.induct)
  case (1 a b c d rest)
  then show ?case by simp
qed simp_all

lemma stream_loop_frames:
  "\<forall>c \<in> set chunks. c \<noteq> [] \<Longrightarrow>
   stream_loop chunks log = Inr (log @ concat (map frame_words chunks))"
  by (induction chunks arbitrary: log) (simp_all add: samples_loop_frames)

lemma frame_words_concat:
  "\<forall>c \<in> set (butlast chunks). length c mod 4 = 0 \<Longrightarrow>
   frame_words (concat chunks) = concat (map frame_words chunks)"
proof (induction chunks)
  case Nil
  show ?case by (simp add: frame_words_def)
next
  case (Cons c cs)
  show ?case
  proof (cases "cs = []")
    case True
    then show ?thesis by simp
  next
    case False
    with Cons.prems have a: "length c mod 4 = 0"
      and b: "\<forall>c \<in> set (butlast cs). length c mod 4 = 0"
      by simp_all
    from Cons.IH [OF b] a show ?thesis
      by (simp add: frame_words_def frames_of_append)
  qed
qed

text \<open>C1, as stated: the words put for a sequence of non-empty chunks are the frames of
  the concatenated chunks. It fails for two 2-byte chunks that together hold one frame:
  \<open>send_samples\<close> keeps nothing from one call to the next, so each chunk's incomplete
  group is dropped and no word is put.\<close>

theorem stream_loop_no_carry_counterexample:
  "[1, 0] \<noteq> ([] :: bytes) \<and> [2, 0] \<noteq> ([] :: bytes)
   \<and> stream_loop [[1, 0], [2, 0]] [] = Inr []
   \<and> frame_words (concat [[1, 0], [2, 0]]) = [0x10002]
   \<and> stream_loop [[1, 0], [2, 0]] [] \<noteq> Inr ([] @ frame_words (concat [[1, 0], [2, 0]]))"
  by (simp add: samples_loop.simps frame_words_def pack_sample_arith le_int_signed_def)

text \<open>C1, amended: for every sequence of non-empty chunks, streaming never raises and
  the words put are, chunk by chunk, the frames of each chunk taken alone (its
  consecutive 4-byte groups, its own final incomplete group dropped). When every chunk
  but the last has a length that is a multiple of 4, these are the frames of the
  concatenated chunks.\<close>

theorem stream_loop_frames_per_chunk:
  assumes "\<forall>c \<in> set chunks. c \<noteq> []"
  shows "stream_loop chunks log = Inr (log @ concat (map frame_words chunks))
         \<and> ((\<forall>c \<in> set (butlast chunks). length c mod 4 = 0) \<longrightarrow>
              stream_loop chunks log = Inr (log @ frame_words (concat chunks)))"
  using assms by (simp add: stream_loop_frames frame_words_concat)

theorem stream_loop_frames_per_chunk_witness:
  "stream_loop [[1, 0, 2, 0, 0xFF, 0xFF, 0, 0x80], [3, 0, 4, 0, 5]] []
     = Inr (concat (map frame_words [[1, 0, 2, 0, 0xFF, 0xFF, 0, 0x80], [3, 0, 4, 0, 5]]))
   \<and> stream_loop [[1, 0, 2, 0, 0xFF, 0xFF, 0, 0x80], [3, 0, 4, 0, 5]] []
     = Inr (frame_words (concat [[1, 0, 2, 0, 0xFF, 0xFF, 0, 0x80], [3, 0, 4, 0, 5]]))
   \<and> frame_words (concat [[1, 0, 2, 0, 0xFF, 0xFF, 0, 0x80], [3, 0, 4, 0, 5]])
     = [0x10002, 0xFFFF8000, 0x30004]"
  using stream_loop_frames_per_chunk [of "[[1, 0, 2, 0, 0xFF, 0xFF, 0, 0x80], [3, 0, 4, 0, 5]]" "[]"]
  by (simp add: frame_words_def pack_sample_arith le_int_signed_def)

section \<open>The header parser\<close>

lemma length_py_slice: "length (py_slice s i j) = min (j - i) (length s - i)"
  by (simp add: py_slice_def)

lemma py_slice_mid:
  "i = length pre \<Longrightarrow> j = i + length xs \<Longrightarrow> py_slice (pre @ xs @ post) i j = xs"
  by (simp add: py_slice_def)

lemma py_slice_mid_take:
  "i = length pre \<Longrightarrow> py_slice (pre @ post) i (i + n) = take n post"
  by (simp add: py_slice_def)

lemma length_le_bytes: "length (le_bytes n v) = n"
  by (induction n arbitrary: v) simp_all

lemma le_nat_le_bytes: "v < 256 ^ n \<Longrightarrow> le_nat (le_bytes n v) = v"
proof (induction n arbitrary: v)
  case 0
  then show ?case by simp
next
  case (Suc n)
  from Suc.prems have "v div 256 < 256 ^ n"
    by (simp add: less_mult_imp_div_less mult.commute)
  then have "le_nat (le_bytes n (v div 256)) = v div 256"
    by (rule Suc.IH)
  moreover have "unat (of_nat (v mod 256) :: byte) = v mod 256"
    by (simp add: unat_of_nat)
  ultimately show ?case by simp
qed

lemma bytes_of_simps:
  "bytes_of ''RIFF'' = [0x52, 0x49, 0x46, 0x46]"
  "bytes_of ''WAVE'' = [0x57, 0x41, 0x56, 0x45]"
  "bytes_of ''fmt '' = [0x66, 0x6D, 0x74, 0x20]"
  "bytes_of ''data'' = [0x64, 0x61, 0x74, 0x61]"
  by (simp_all add: bytes_of_def)

lemma length_bytes_of [simp]: "length (bytes_of s) = length s"
  by (simp add: bytes_of_def)

lemma fmt_loop_returns: "\<exists>r. fmt_loop header pos = Some r"
proof (induction "length header - pos" arbitrary: pos rule: less_induct)
  case less
  show ?case
  proof (cases "int pos < int (length header) - 8")
    case False
    then show ?thesis by (subst fmt_loop.simps) simp
  next
    case True
    show ?thesis
    proof (cases "chunk_step header pos")
      case (Inl r)
      with True show ?thesis by (subst fmt_loop.simps) simp
    next
      case (Inr pos')
      then have "pos + 8 \<le> pos'"
        by (auto simp add: chunk_step_def Let_def split: sum.splits if_splits)
      with True have "length header - pos' < length header - pos" by linarith
      from less [OF this] True Inr show ?thesis
        by (subst fmt_loop.simps) simp
    qed
  qed
qed

lemma chunk_step_advances: "chunk_step header pos = Inr pos' \<Longrightarrow> pos + 8 \<le> pos'"
  by (auto simp add: chunk_step_def Let_def split: sum.splits if_splits)

lemma decode_fmt_eq:
  "decode_fmt d =
     (if length d < 16 then Inl (ValueError ''buffer too small'')
      else Inr \<lparr>format = le_nat (py_slice d 0 2), channels = le_nat (py_slice d 2 4),
               sample_rate = le_nat (py_slice d 4 8), bits = le_nat (py_slice d 14 16)\<rparr>)"
proof (cases "length d < 16")
  case True
  then show ?thesis
    by (auto simp add: decode_fmt_def unpack_H_def unpack_I_def length_py_slice min_def)
next
  case False
  then have "length (py_slice d 0 2) = 2" "length (py_slice d 2 4) = 2"
    "length (py_slice d 4 8) = 4" "length (py_slice d 14 16) = 2"
    by (simp_all add: length_py_slice)
  with False show ?thesis
    by (simp add: decode_fmt_def unpack_H_def unpack_I_def)
qed

lemma chunk_step_eq:
  assumes "pos + 8 < length header"
  shows "chunk_step header pos =
     (if py_slice header pos (pos + 4) = bytes_of ''fmt ''
      then Inl (decode_fmt (py_slice header (pos + 8)
                  (pos + 8 + le_nat (py_slice header (pos + 4) (pos + 8)))))
      else Inr (pos + 8 + le_nat (py_slice header (pos + 4) (pos + 8))))"
proof -
  have "length (py_slice header (pos + 4) (pos + 8)) = 4"
    using assms by (simp add: length_py_slice)
  then show ?thesis
    by (simp add: chunk_step_def unpack_I_def)
qed

lemma fmt_loop_walk:
  "fmt_loop header pos =
     Some (case find (\<lambda>c. fst (snd c) = bytes_of ''fmt '') (chunk_walk header pos) of
             None \<Rightarrow> Inl (ValueError ''No fmt chunk found'')
           | Some c \<Rightarrow> decode_fmt (fmt_data_of header c))"
proof (induction header pos rule: chunk_walk.induct)
  case (1 header pos)
  show ?case
  proof (cases "pos + 8 < length header")
    case False
    then have "\<not> int pos < int (length header) - 8" by linarith
    with False show ?thesis
      by (subst fmt_loop.simps, subst chunk_walk.simps) simp
  next
    case True
    then have c: "int pos < int (length header) - 8" by linarith
    show ?thesis
    proof (cases "py_slice header pos (pos + 4) = bytes_of ''fmt ''")
      case True
      with c \<open>pos + 8 < length header\<close> show ?thesis
        by (subst fmt_loop.simps, subst chunk_walk.simps)
          (simp add: chunk_step_eq fmt_data_of_def)
    next
      case False
      with c \<open>pos + 8 < length header\<close> "1.IH" show ?thesis
        by (subst fmt_loop.simps, subst chunk_walk.simps)
          (simp add: chunk_step_eq)
    qed
  qed
qed

lemma bytes_of_LIST: "bytes_of ''LIST'' = [0x4C, 0x49, 0x53, 0x54]"
  by (simp add: bytes_of_def)

text \<open>C9. \<open>parse_wav_header\<close> returns on every input, with a descriptor or an error, and
  so does the chunk walk from every position: whenever the body of the loop goes on, the
  new position is at least 8 bytes further (8 plus the declared length, which is not
  negative), so \<open>len(header) - pos\<close> decreases.\<close>

theorem parse_wav_header_terminates:
  "(\<exists>r. parse_wav_header header = Some r)
   \<and> (\<exists>r. fmt_loop header pos = Some r)
   \<and> (\<forall>pos'. chunk_step header pos = Inr pos' \<longrightarrow> pos + 8 \<le> pos')"
  using fmt_loop_returns [of header 12] fmt_loop_returns [of header pos]
  by (auto simp add: parse_wav_header_def dest: chunk_step_advances)

theorem parse_wav_header_terminates_witness:
  "chunk_step window_wav 12 = Inr 24 \<and> (12::nat) + 8 \<le> 24
   \<and> parse_wav_header window_wav = Some (Inl (ValueError ''buffer too small''))"
  using parse_wav_header_terminates [of window_wav 12]
  by (simp add: window_wav_def parse_wav_header_def fmt_loop.simps chunk_step_def decode_fmt_def
      bytes_of_simps bytes_of_LIST py_slice_def unpack_I_def unpack_H_def)

lemma parse_wav_header_eq:
  "parse_wav_header header =
     Some (if \<not> has_magic header then Inl (ValueError ''Not a valid WAV file'')
           else case first_fmt header of
                  None \<Rightarrow> Inl (ValueError ''No fmt chunk found'')
                | Some c \<Rightarrow>
                    if length (fmt_data_of header c) < 16
                    then Inl (ValueError ''buffer too small'')
                    else Inr \<lparr>format = le_nat (py_slice (fmt_data_of header c) 0 2),
                             channels = le_nat (py_slice (fmt_data_of header c) 2 4),
                             sample_rate = le_nat (py_slice (fmt_data_of header c) 4 8),
                             bits = le_nat (py_slice (fmt_data_of header c) 14 16)\<rparr>)"
  by (simp add: parse_wav_header_def has_magic_def first_fmt_def fmt_loop_walk decode_fmt_eq
      split: option.splits)

lemma window_wav_walk: "chunk_walk window_wav 12 = [(12, bytes_of ''LIST'', 4), (24, bytes_of ''fmt '', 16)]"
  by (simp add: window_wav_def chunk_walk.simps bytes_of_simps bytes_of_LIST py_slice_def)

text \<open>C5, as stated: the parser fails with a \<open>ValueError\<close> exactly when the magic is
  absent or the walk ends without a \<open>fmt \<close> chunk. It fails on \<open>window_wav\<close>, which has
  the magic and in which the walk finds the \<open>fmt \<close> chunk at offset 24: only 12 bytes of
  its payload are there, and \<open>struct.unpack\<close> of the bits-per-sample field raises
  \<open>ValueError('buffer too small')\<close>.\<close>

theorem parse_wav_header_truncated_fmt_counterexample:
  "has_magic window_wav
   \<and> first_fmt window_wav = Some (24, bytes_of ''fmt '', 16)
   \<and> parse_wav_header window_wav = Some (Inl (ValueError ''buffer too small''))
   \<and> \<not> (is_value_error (parse_wav_header window_wav)
          \<longleftrightarrow> \<not> has_magic window_wav \<or> first_fmt window_wav = None)"
proof -
  have m: "has_magic window_wav"
    by (simp add: has_magic_def window_wav_def bytes_of_simps py_slice_def)
  have f: "first_fmt window_wav = Some (24, bytes_of ''fmt '', 16)"
    by (simp add: first_fmt_def window_wav_walk bytes_of_simps bytes_of_LIST)
  have l: "length (fmt_data_of window_wav (24, bytes_of ''fmt '', 16)) = 12"
    by (simp add: fmt_data_of_def window_wav_def py_slice_def)
  have p: "parse_wav_header window_wav = Some (Inl (ValueError ''buffer too small''))"
    by (simp add: parse_wav_header_eq m f l)
  show ?thesis
    by (simp add: m f p is_value_error_def)
qed

text \<open>C5, amended: the parser fails exactly when the magic is absent (\<open>Not a valid WAV
  file\<close>), or the walk ends without a \<open>fmt \<close> chunk (\<open>No fmt chunk found\<close>), or the first
  \<open>fmt \<close> chunk of the walk has fewer than 16 bytes of payload in the input (\<open>buffer too
  small\<close>); it returns a descriptor exactly when the magic is there and the first \<open>fmt \<close>
  chunk has at least 16 bytes of payload in the input. Every run ends in one of the two
  ways, and a failure carries no descriptor.\<close>

theorem parse_wav_header_failures:
  "(parse_wav_header header = Some (Inl (ValueError ''Not a valid WAV file''))
      \<longleftrightarrow> \<not> has_magic header)
   \<and> (parse_wav_header header = Some (Inl (ValueError ''No fmt chunk found''))
      \<longleftrightarrow> has_magic header \<and> first_fmt header = None)
   \<and> (parse_wav_header header = Some (Inl (ValueError ''buffer too small''))
      \<longleftrightarrow> has_magic header
          \<and> (\<exists>c. first_fmt header = Some c \<and> length (fmt_data_of header c) < 16))
   \<and> ((\<exists>d. parse_wav_header header = Some (Inr d))
      \<longleftrightarrow> has_magic header
          \<and> (\<exists>c. first_fmt header = Some c \<and> 16 \<le> length (fmt_data_of header c)))
   \<and> (is_value_error (parse_wav_header header)
      \<longleftrightarrow> \<not> has_magic header \<or> first_fmt header = None
          \<or> (\<exists>c. first_fmt header = Some c \<and> length (fmt_data_of header c) < 16))
   \<and> (is_value_error (parse_wav_header header) \<or> (\<exists>d. parse_wav_header header = Some (Inr d)))"
  by (auto simp add: parse_wav_header_eq is_value_error_def split: option.splits)

theorem parse_wav_header_failures_witness:
  "has_magic window_wav
   \<and> first_fmt window_wav = Some (24, bytes_of ''fmt '', 16)
   \<and> length (fmt_data_of window_wav (24, bytes_of ''fmt '', 16)) < 16
   \<and> is_value_error (parse_wav_header window_wav)"
proof -
  have m: "has_magic window_wav"
    by (simp add: has_magic_def window_wav_def bytes_of_simps py_slice_def)
  have f: "first_fmt window_wav = Some (24, bytes_of ''fmt '', 16)"
    by (simp add: first_fmt_def window_wav_walk bytes_of_simps bytes_of_LIST)
  have l: "length (fmt_data_of window_wav (24, bytes_of ''fmt '', 16)) = 12"
    by (simp add: fmt_data_of_def window_wav_def py_slice_def)
  show ?thesis
    using parse_wav_header_failures [of window_wav] by (simp add: m f l is_value_error_def)
qed


lemma chunk_step_chunk:
  assumes "length cid = 4" and "n < 2 ^ 32" and "pos = length pre"
  shows "chunk_step (pre @ cid @ le_bytes 4 n @ post) pos =
     (if cid = bytes_of ''fmt '' then Inl (decode_fmt (take n post))
      else Inr (pos + 8 + n))"
proof -
  let ?h = "pre @ cid @ le_bytes 4 n @ post"
  have i: "py_slice ?h pos (pos + 4) = cid"
    using assms by (simp add: py_slice_mid)
  have "py_slice ((pre @ cid) @ le_bytes 4 n @ post) (pos + 4) (pos + 4 + 4) = le_bytes 4 n"
    using assms by (intro py_slice_mid) (simp_all add: length_le_bytes)
  then have z: "py_slice ?h (pos + 4) (pos + 8) = le_bytes 4 n"
    by (simp add: add.assoc)
  have "py_slice ((pre @ cid @ le_bytes 4 n) @ post) (pos + 8) (pos + 8 + n) = take n post"
    using assms by (intro py_slice_mid_take) (simp add: length_le_bytes)
  then have d: "py_slice ?h (pos + 8) (pos + 8 + n) = take n post"
    by simp
  have v: "le_nat (le_bytes 4 n) = n"
    using assms by (intro le_nat_le_bytes) simp
  have u: "unpack_I (le_bytes 4 n) = Inr n"
    by (simp add: unpack_I_def length_le_bytes v del: le_bytes.simps)
  show ?thesis
    unfolding chunk_step_def Let_def i z u
    by (simp only: sum.case d)
qed

lemma fmt_loop_skips:
  assumes "list_all unknown_chunk before" and "length payload < 2 ^ 32" and "payload \<noteq> []"
  shows "fmt_loop (pre @ concat (map chunk_bytes before)
                     @ chunk_bytes (bytes_of ''fmt '', payload) @ rest) (length pre)
         = Some (decode_fmt payload)"
  using assms(1)
proof (induction before arbitrary: pre)
  case Nil
  let ?h = "pre @ bytes_of ''fmt '' @ le_bytes 4 (length payload) @ payload @ rest"
  have c: "int (length pre) < int (length ?h) - 8"
    using assms(3) by (cases payload) (simp_all add: length_le_bytes)
  have "chunk_step ?h (length pre) = Inl (decode_fmt (take (length payload) (payload @ rest)))"
    using assms(2) by (subst chunk_step_chunk) simp_all
  with c show ?case
    by (subst fmt_loop.simps) (simp add: chunk_bytes_def)
next
  case (Cons c before)
  define tail where "tail = concat (map chunk_bytes before)
      @ chunk_bytes (bytes_of ''fmt '', payload) @ rest"
  let ?h = "pre @ fst c @ le_bytes 4 (length (snd c)) @ snd c @ tail"
  from Cons.prems have u: "unknown_chunk c" and b: "list_all unknown_chunk before"
    by simp_all
  have t: "8 \<le> length tail"
    by (simp add: tail_def chunk_bytes_def length_le_bytes)
  have cnd: "int (length pre) < int (length ?h) - 8"
    using t u by (simp add: length_le_bytes unknown_chunk_def)
  have st: "chunk_step ?h (length pre) = Inr (length pre + 8 + length (snd c))"
    using u by (subst chunk_step_chunk) (simp_all add: unknown_chunk_def)
  have ih: "fmt_loop ((pre @ chunk_bytes c) @ tail) (length (pre @ chunk_bytes c))
      = Some (decode_fmt payload)"
    unfolding tail_def by (rule Cons.IH [OF b])
  have e1: "length (pre @ chunk_bytes c) = length pre + 8 + length (snd c)"
    using u by (simp add: chunk_bytes_def length_le_bytes unknown_chunk_def)
  have e2: "(pre @ chunk_bytes c) @ tail = ?h"
    by (simp add: chunk_bytes_def)
  from ih have "fmt_loop ?h (length pre + 8 + length (snd c)) = Some (decode_fmt payload)"
    by (simp only: e1 e2)
  with cnd st have "fmt_loop ?h (length pre) = Some (decode_fmt payload)"
    by (subst fmt_loop.simps) simp
  moreover have "chunk_bytes c = fst c @ le_bytes 4 (length (snd c)) @ snd c"
    by (simp add: chunk_bytes_def)
  ultimately show ?case
    by (simp add: tail_def)
qed

lemma decode_fmt_payload:
  assumes "fmt_code < 2 ^ 16" "nch < 2 ^ 16" "rate < 2 ^ 32" "nbits < 2 ^ 16"
  shows "decode_fmt (fmt_payload fmt_code nch rate byte_rate block_align nbits extension)
         = Inr \<lparr>format = fmt_code, channels = nch, sample_rate = rate, bits = nbits\<rparr>"
proof -
  let ?d = "fmt_payload fmt_code nch rate byte_rate block_align nbits extension"
  have l: "\<not> length ?d < 16"
    by (simp add: fmt_payload_def length_le_bytes)
  have a: "py_slice ?d 0 2 = le_bytes 2 fmt_code"
    by (simp add: fmt_payload_def py_slice_def length_le_bytes)
  have b: "py_slice ?d 2 4 = le_bytes 2 nch"
    by (simp add: fmt_payload_def py_slice_def length_le_bytes)
  have c: "py_slice ?d 4 8 = le_bytes 4 rate"
    by (simp add: fmt_payload_def py_slice_def length_le_bytes)
  have d: "py_slice ?d 14 16 = le_bytes 2 nbits"
    by (simp add: fmt_payload_def py_slice_def length_le_bytes)
  have "le_nat (le_bytes 2 fmt_code) = fmt_code" "le_nat (le_bytes 2 nch) = nch"
    "le_nat (le_bytes 4 rate) = rate" "le_nat (le_bytes 2 nbits) = nbits"
    using assms by (simp_all add: le_nat_le_bytes)
  then show ?thesis
    by (simp add: decode_fmt_eq l a b c d del: le_bytes.simps)
qed

lemma parse_wav_bytes:
  assumes "length riff_size = 4" and "list_all unknown_chunk before"
    and "length payload < 2 ^ 32" and "payload \<noteq> []"
  shows "parse_wav_header (wav_bytes riff_size before payload rest) = Some (decode_fmt payload)"
proof -
  let ?pre = "bytes_of ''RIFF'' @ riff_size @ bytes_of ''WAVE''"
  let ?tail = "concat (map chunk_bytes before) @ chunk_bytes (bytes_of ''fmt '', payload) @ rest"
  have w: "wav_bytes riff_size before payload rest = ?pre @ ?tail"
    by (simp add: wav_bytes_def)
  have m: "py_slice (?pre @ ?tail) 0 4 = bytes_of ''RIFF''"
    "py_slice (?pre @ ?tail) 8 12 = bytes_of ''WAVE''"
    using assms(1) by (simp_all add: py_slice_def)
  have "fmt_loop (?pre @ ?tail) (length ?pre) = Some (decode_fmt payload)"
    by (rule fmt_loop_skips [OF assms(2-4)])
  moreover have "length ?pre = 12"
    using assms(1) by simp
  ultimately show ?thesis
    unfolding w parse_wav_header_def by (simp only: m) simp
qed

text \<open>C4. For a WAV byte sequence with the magic, any 4-byte size field, any number of
  chunks that are not \<open>fmt \<close> chunks, each of any length below \<open>2^32\<close>, then a \<open>fmt \<close>
  chunk that encodes format code, channel count, sample rate and bits per sample at the
  offsets 0, 2, 4 and 14 of its payload, and anything after it, the parser returns
  exactly the encoded values. The body of the loop skips a chunk that is not a \<open>fmt \<close>
  chunk by its declared length plus 8.\<close>

theorem parse_wav_header_fmt_fields:
  assumes "length riff_size = 4" and "list_all unknown_chunk before"
    and "fmt_code < 2 ^ 16" and "nch < 2 ^ 16" and "rate < 2 ^ 32" and "nbits < 2 ^ 16"
    and "16 + length extension < 2 ^ 32"
  shows "parse_wav_header
           (wav_bytes riff_size before
              (fmt_payload fmt_code nch rate byte_rate block_align nbits extension) rest)
         = Some (Inr \<lparr>format = fmt_code, channels = nch, sample_rate = rate, bits = nbits\<rparr>)
       \<and> (\<forall>c pre post. unknown_chunk c \<longrightarrow>
            chunk_step (pre @ chunk_bytes c @ post) (length pre)
              = Inr (length pre + 8 + length (snd c)))"
proof -
  let ?p = "fmt_payload fmt_code nch rate byte_rate block_align nbits extension"
  have "length ?p = 16 + length extension"
    by (simp add: fmt_payload_def length_le_bytes)
  with assms(7) have "length ?p < 2 ^ 32" "?p \<noteq> []"
    by auto
  from parse_wav_bytes [OF assms(1,2) this]
  have 1: "parse_wav_header (wav_bytes riff_size before ?p rest)
      = Some (Inr \<lparr>format = fmt_code, channels = nch, sample_rate = rate, bits = nbits\<rparr>)"
    using assms(3-6) by (simp add: decode_fmt_payload)
  have 2: "chunk_step (pre @ chunk_bytes c @ post) (length pre)
      = Inr (length pre + 8 + length (snd c))" if "unknown_chunk c" for c pre post
    using that unfolding chunk_bytes_def
    by (simp add: chunk_step_chunk unknown_chunk_def)
  from 1 2 show ?thesis
    by blast
qed


theorem parse_wav_header_fmt_fields_witness:
  "list_all unknown_chunk [(bytes_of ''LIST'', [1, 2, 3])]
   \<and> parse_wav_header
        (wav_bytes [0x3F, 0, 0, 0] [(bytes_of ''LIST'', [1, 2, 3])]
           (fmt_payload 1 2 44100 176400 4 16 [])
           (bytes_of ''data'' @ [8, 0, 0, 0] @ [1, 0, 2, 0, 0xFF, 0xFF, 0, 0x80]))
      = Some (Inr \<lparr>format = 1, channels = 2, sample_rate = 44100, bits = 16\<rparr>)
   \<and> chunk_step (bytes_of ''RIFF'' @ chunk_bytes (bytes_of ''LIST'', [1, 2, 3]) @ []) 4
      = Inr 15"
proof -
  let ?c = "(bytes_of ''LIST'', [1, 2, 3] :: bytes)"
  have u: "unknown_chunk ?c"
    by (simp add: unknown_chunk_def bytes_of_simps bytes_of_LIST)
  have t: "parse_wav_header
        (wav_bytes [0x3F, 0, 0, 0] [?c] (fmt_payload 1 2 44100 176400 4 16 [])
           (bytes_of ''data'' @ [8, 0, 0, 0] @ [1, 0, 2, 0, 0xFF, 0xFF, 0, 0x80]))
      = Some (Inr \<lparr>format = 1, channels = 2, sample_rate = 44100, bits = 16\<rparr>)
    \<and> (\<forall>c pre post. unknown_chunk c \<longrightarrow>
          chunk_step (pre @ chunk_bytes c @ post) (length pre)
            = Inr (length pre + 8 + length (snd c)))"
    by (rule parse_wav_header_fmt_fields) (simp_all add: u)
  then have "chunk_step (bytes_of ''RIFF'' @ chunk_bytes ?c @ []) (length (bytes_of ''RIFF''))
      = Inr (length (bytes_of ''RIFF'') + 8 + length (snd ?c))"
    using u by blast
  moreover have "length (bytes_of ''RIFF'') = 4"
    by (simp add: bytes_of_simps)
  ultimately have "chunk_step (bytes_of ''RIFF'' @ chunk_bytes ?c @ []) 4 = Inr 15"
    by (simp only: snd_conv) simp
  with t u show ?thesis
    by simp
qed

text \<open>C6. The end-to-end scenario: the parser returns PCM, 2 channels, 44100 Hz, 16 bits
  for the whole input and for its first 44 bytes, the bytes after them are the payload,
  and the assembler calls \<open>send_sample(1, 2)\<close> and then \<open>send_sample(-1, -32768)\<close>, that
  is, it puts the words \<open>0x00010002\<close> and \<open>0xFFFF8000\<close>.\<close>

theorem example_wav_end_to_end:
  "parse_wav_header example_wav
     = Some (Inr \<lparr>format = 1, channels = 2, sample_rate = 44100, bits = 16\<rparr>)
   \<and> parse_wav_header (take 44 example_wav)
     = Some (Inr \<lparr>format = 1, channels = 2, sample_rate = 44100, bits = 16\<rparr>)
   \<and> drop 44 example_wav = example_payload
   \<and> frames_of example_payload = [(1, 2), (- 1, - 32768)]
   \<and> send_samples (Buffer example_payload) []
     = Inr (send_sample (- 1) (- 32768) (send_sample 1 2 []))
   \<and> stream_loop [example_payload] [] = Inr [0x00010002, 0xFFFF8000]"
proof -
  have p: "parse_wav_header example_wav
      = Some (Inr \<lparr>format = 1, channels = 2, sample_rate = 44100, bits = 16\<rparr>)"
    by (simp add: example_wav_def example_payload_def parse_wav_header_def bytes_of_simps
        py_slice_def fmt_loop.simps chunk_step_def decode_fmt_def unpack_H_def unpack_I_def)
  have q: "parse_wav_header (take 44 example_wav)
      = Some (Inr \<lparr>format = 1, channels = 2, sample_rate = 44100, bits = 16\<rparr>)"
    by (simp add: example_wav_def example_payload_def parse_wav_header_def bytes_of_simps
        py_slice_def fmt_loop.simps chunk_step_def decode_fmt_def unpack_H_def unpack_I_def)
  have d: "drop 44 example_wav = example_payload"
    by (simp add: example_wav_def bytes_of_simps)
  have f: "frames_of example_payload = [(1, 2), (- 1, - 32768)]"
    by (simp add: example_payload_def le_int_signed_def)
  have s: "send_samples (Buffer example_payload) [] = Inr [0x00010002, 0xFFFF8000]"
    by (simp add: samples_loop_frames frame_words_def f pack_sample_arith)
  have w: "send_sample (- 1) (- 32768) (send_sample 1 2 []) = [0x00010002, 0xFFFF8000]"
    by (simp add: send_sample_def pack_sample_arith)
  have "example_payload \<noteq> []"
    by (simp add: example_payload_def)
  with s have t: "stream_loop [example_payload] [] = Inr [0x00010002, 0xFFFF8000]"
    by simp
  show ?thesis
    by (simp only: p q d f s w t)
qed

text \<open>On this input both magic tests of the parser pass and the walk finds the \<open>fmt \<close>
  chunk at offset 12.\<close>

theorem example_wav_end_to_end_witness:
  "py_slice example_wav 0 4 = bytes_of ''RIFF'' \<and> py_slice example_wav 8 12 = bytes_of ''WAVE''
   \<and> py_slice example_wav 12 16 = bytes_of ''fmt ''
   \<and> parse_wav_header example_wav
     = Some (Inr \<lparr>format = 1, channels = 2, sample_rate = 44100, bits = 16\<rparr>)
   \<and> stream_loop [example_payload] [] = Inr [0x00010002, 0xFFFF8000]"
  using example_wav_end_to_end
  by (simp add: example_wav_def bytes_of_simps py_slice_def)

section \<open>The sample conversions of \<open>convert_to_stereo_16bit\<close>\<close>

lemma le_nat_bound: "le_nat b < 256 ^ length b"
proof (induction b)
  case Nil
  show ?case by simp
next
  case (Cons a b)
  have "unat a < 256"
    using unsigned_less [of a] by simp
  with Cons show ?case by simp
qed

lemma le_int_signed_bounds:
  "- (2 ^ (8 * length b)) \<le> 2 * le_int_signed b \<and> 2 * le_int_signed b < 2 ^ (8 * length b)"
proof -
  define n where "n = int (le_nat b)"
  define p :: int where "p = 2 ^ (8 * length b)"
  have "int (le_nat b) < int (256 ^ length b)"
    using le_nat_bound [of b] by (simp only: of_nat_less_iff)
  then have n: "0 \<le> n" "n < p"
    by (simp_all add: n_def p_def power_mult)
  have "2 * le_nat b < 2 ^ (8 * length b)
      \<longleftrightarrow> int (2 * le_nat b) < int (2 ^ (8 * length b))"
    by (simp only: of_nat_less_iff)
  then have "2 * le_nat b < 2 ^ (8 * length b) \<longleftrightarrow> 2 * n < p"
    by (simp add: n_def p_def)
  then have "le_int_signed b = (if 2 * n < p then n else n - p)"
    by (simp add: le_int_signed_def n_def p_def)
  with n show ?thesis
    unfolding p_def [symmetric] by (auto simp add: not_less)
qed

lemma pow_le: "n \<le> k \<Longrightarrow> (2::int) ^ (8 * n) \<le> 2 ^ (8 * k)"
  by (simp add: power_increasing)

lemma le_int_signed_24:
  assumes "length b \<le> 3"
  shows "- 8388608 \<le> le_int_signed b \<and> le_int_signed b < 8388608"
proof -
  have "(2::int) ^ (8 * length b) \<le> 2 ^ (8 * 3)"
    using assms by (rule pow_le)
  with le_int_signed_bounds [of b] show ?thesis by simp
qed

lemma le_int_signed_32:
  assumes "length b \<le> 4"
  shows "- 2147483648 \<le> le_int_signed b \<and> le_int_signed b < 2147483648"
proof -
  have "(2::int) ^ (8 * length b) \<le> 2 ^ (8 * 4)"
    using assms by (rule pow_le)
  with le_int_signed_bounds [of b] show ?thesis by simp
qed

lemma le_int_signed_16:
  assumes "length b \<le> 2"
  shows "int16 (le_int_signed b)"
proof -
  have "(2::int) ^ (8 * length b) \<le> 2 ^ (8 * 2)"
    using assms by (rule pow_le)
  with le_int_signed_bounds [of b] show ?thesis by (simp add: int16_def)
qed

lemma conv_8bit_range: "- 32768 \<le> conv_8bit s \<and> conv_8bit s \<le> 32512"
proof -
  have "0 \<le> uint s" "uint s < 256"
    using uint_bounded [of s] by simp_all
  then show ?thesis
    by (simp add: conv_8bit_def)
qed

lemma le_bytes_2: "le_bytes 2 v = [of_nat (v mod 256), of_nat (v div 256 mod 256)]"
proof -
  have "(2::nat) = Suc (Suc 0)"
    by simp
  then show ?thesis
    by (simp only: le_bytes.simps)
qed

lemma le_bytes_4:
  "le_bytes 4 v = [of_nat (v mod 256), of_nat (v div 256 mod 256),
     of_nat (v div 256 div 256 mod 256), of_nat (v div 256 div 256 div 256 mod 256)]"
proof -
  have "(4::nat) = Suc (Suc (Suc (Suc 0)))"
    by simp
  then show ?thesis
    by (simp only: le_bytes.simps)
qed

lemma conv_24bit_range: "- 8388608 \<le> v \<Longrightarrow> v < 8388608 \<Longrightarrow> int16 (conv_24bit v)"
  unfolding int16_def conv_24bit_def by linarith

lemma conv_32bit_range: "- 2147483648 \<le> v \<Longrightarrow> v < 2147483648 \<Longrightarrow> int16 (conv_32bit v)"
  unfolding int16_def conv_32bit_def by linarith

lemma groups_of_length: "g \<in> set (groups_of n b) \<Longrightarrow> length g \<le> n"
proof (induction n b rule: groups_of.induct)
  case (1 n b)
  show ?case
  proof (cases "n = 0 \<or> b = []")
    case True
    with "1.prems" show ?thesis
      by (subst (asm) groups_of.simps) simp
  next
    case False
    with "1.prems" have "g = take n b \<or> g \<in> set (groups_of n (drop n b))"
      by (subst (asm) groups_of.simps) simp
    with "1.IH" [OF False] show ?thesis
      by auto
  qed
qed

lemma pack_hs_in_range: "list_all int16 vs \<Longrightarrow> pack_hs vs \<noteq> Inl (StructError OutOfRange)"
  by (simp add: pack_hs_def)

lemma to_16bit_in_range: "to_16bit sampwidth frames \<noteq> Inl (StructError OutOfRange)"
proof -
  have "int16 (conv_8bit s)" for s
    using conv_8bit_range [of s] by (simp add: int16_def)
  then have 1: "list_all int16 (map conv_8bit frames)"
    by (simp add: list_all_iff)
  have 3: "list_all int16 (map conv_24bit (map le_int_signed (groups_of 3 frames)))"
    by (auto simp add: list_all_iff dest!: groups_of_length intro!: conv_24bit_range
        simp: le_int_signed_24)
  have 4: "list_all int16 (map conv_32bit (map le_int_signed (groups_of 4 frames)))"
    by (auto simp add: list_all_iff dest!: groups_of_length intro!: conv_32bit_range
        simp: le_int_signed_32)
  show ?thesis
    using 1 3 4
    by (auto simp add: to_16bit_def bind_e_def unpack_is_def pack_hs_def split: sum.splits)
qed

text \<open>C10. No bit-depth conversion leaves the signed 16-bit range: an unsigned 8-bit
  sample maps into \<open>[-32768, 32512]\<close>, a signed 24-bit sample and a signed 32-bit sample
  map into \<open>[-32768, 32767]\<close>, and so does every sample read from a slice of at most 3
  or 4 bytes; hence repacking the converted samples as 16-bit values never raises a
  range error, for any sample width and any frame data.\<close>

theorem conversions_stay_in_int16:
  "- 32768 \<le> conv_8bit s \<and> conv_8bit s \<le> 32512
   \<and> (- 8388608 \<le> v \<and> v < 8388608 \<longrightarrow> - 32768 \<le> conv_24bit v \<and> conv_24bit v \<le> 32767)
   \<and> (- 2147483648 \<le> v \<and> v < 2147483648 \<longrightarrow> - 32768 \<le> conv_32bit v \<and> conv_32bit v \<le> 32767)
   \<and> (length g \<le> 3 \<longrightarrow> int16 (conv_24bit (le_int_signed g)))
   \<and> (length g \<le> 4 \<longrightarrow> int16 (conv_32bit (le_int_signed g)))
   \<and> to_16bit sampwidth frames \<noteq> Inl (StructError OutOfRange)"
  using conv_8bit_range [of s] conv_24bit_range [of v] conv_32bit_range [of v]
    conv_24bit_range [of "le_int_signed g"] conv_32bit_range [of "le_int_signed g"]
    le_int_signed_24 [of g] le_int_signed_32 [of g] to_16bit_in_range [of sampwidth frames]
  by (simp add: int16_def)

theorem conversions_stay_in_int16_witness:
  "conv_8bit 0 = - 32768 \<and> conv_8bit 255 = 32512
   \<and> conv_24bit (- 8388608) = - 32768 \<and> conv_24bit 8388607 = 32767
   \<and> conv_32bit (- 2147483648) = - 32768 \<and> conv_32bit 2147483647 = 32767
   \<and> conv_24bit (le_int_signed [0, 0, 0x80]) = - 32768
   \<and> conv_32bit (le_int_signed [0xFF, 0xFF, 0xFF, 0x7F]) = 32767
   \<and> to_16bit 3 [0, 0, 0x80, 0xFF, 0xFF, 0x7F] = Inr [0, 0x80, 0xFF, 0x7F]"
  using conversions_stay_in_int16 [of 0 "- 8388608" "[0, 0, 0x80]" 3 "[0, 0, 0x80, 0xFF, 0xFF, 0x7F]"]
    conversions_stay_in_int16 [of 255 "2147483647" "[0xFF, 0xFF, 0xFF, 0x7F]" 4 "[]"]
  by (simp add: conv_8bit_def conv_24bit_def conv_32bit_def le_int_signed_def to_16bit_def
      groups_of.simps pack_hs_def int16_def le_bytes_2)

section \<open>Normalization followed by parsing\<close>

lemma groups_of_exact:
  assumes "0 < n"
  shows "length b = n * k \<Longrightarrow>
         length (groups_of n b) = k \<and> (\<forall>g \<in> set (groups_of n b). length g = n)"
proof (induction k arbitrary: b)
  case 0
  then show ?case by (subst groups_of.simps, subst groups_of.simps) simp
next
  case (Suc k)
  from Suc.prems assms have ne: "b \<noteq> []" and d: "length (drop n b) = n * k"
    and t: "length (take n b) = n"
    by auto
  from Suc.IH [OF d] assms ne t show ?case
    by (subst groups_of.simps, subst groups_of.simps) simp
qed

lemma pack_hs_length:
  assumes "list_all int16 vs"
  shows "\<exists>out. pack_hs vs = Inr out \<and> length out = 2 * length vs"
proof -
  have "length (concat (map (\<lambda>v. le_bytes 2 (nat (v mod 2 ^ 16))) vs)) = 2 * length vs"
    by (induction vs) (simp_all add: length_le_bytes del: le_bytes.simps)
  with assms show ?thesis
    by (simp add: pack_hs_def)
qed

lemma to_16bit_length:
  assumes "sampwidth = 1 \<or> sampwidth = 2 \<or> sampwidth = 3 \<or> sampwidth = 4"
    and "length frames = sampwidth * k"
  shows "\<exists>out. to_16bit sampwidth frames = Inr out \<and> length out = 2 * k"
proof -
  consider "sampwidth = 1" | "sampwidth = 2" | "sampwidth = 3" | "sampwidth = 4"
    using assms(1) by blast
  then show ?thesis
  proof cases
    case 1
    have "int16 (conv_8bit s)" for s
      using conv_8bit_range [of s] by (simp add: int16_def)
    then have "list_all int16 (map conv_8bit frames)"
      by (simp add: list_all_iff)
    from pack_hs_length [OF this] 1 assms(2) show ?thesis
      by (simp add: to_16bit_def)
  next
    case 2
    with assms(2) show ?thesis
      by (simp add: to_16bit_def)
  next
    case 3
    with assms(2) have g: "length (groups_of 3 frames) = k"
      "\<forall>g \<in> set (groups_of 3 frames). length g = 3"
      using groups_of_exact [of 3 frames k] by simp_all
    then have "list_all int16 (map conv_24bit (map le_int_signed (groups_of 3 frames)))"
      by (auto simp add: list_all_iff intro!: conv_24bit_range simp: le_int_signed_24)
    from pack_hs_length [OF this] 3 g(1) show ?thesis
      by (simp add: to_16bit_def)
  next
    case 4
    with assms(2) have g: "length (groups_of 4 frames) = k"
      "\<forall>g \<in> set (groups_of 4 frames). length g = 4"
      using groups_of_exact [of 4 frames k] by simp_all
    then have "list_all int16 (map conv_32bit (map le_int_signed (groups_of 4 frames)))"
      by (auto simp add: list_all_iff intro!: conv_32bit_range simp: le_int_signed_32)
    from pack_hs_length [OF this] 4 g(1) assms(2) show ?thesis
      by (simp add: to_16bit_def unpack_is_def bind_e_def)
  qed
qed

lemma to_stereo_length:
  assumes "length frames = 2 * k"
  shows "\<exists>out. to_stereo frames = Inr out \<and> length out = 4 * k"
proof -
  from assms have g: "length (groups_of 2 frames) = k"
    "\<forall>g \<in> set (groups_of 2 frames). length g = 2"
    using groups_of_exact [of 2 frames k] by simp_all
  let ?samples = "map le_int_signed (groups_of 2 frames)"
  have "list_all int16 ?samples"
    using g(2) by (auto simp add: list_all_iff intro!: le_int_signed_16)
  then have "list_all int16 (concat (map (\<lambda>s. [s, s]) ?samples))"
    by (auto simp add: list_all_iff)
  moreover have "length (concat (map (\<lambda>s. [s, s]) ?samples)) = 2 * k"
    using g(1) by (simp add: length_concat o_def sum_list_triv)
  ultimately show ?thesis
    using pack_hs_length [of "concat (map (\<lambda>s. [s, s]) ?samples)"] assms
    by (auto simp add: to_stereo_def unpack_hs_def bind_e_def)
qed

lemma wav_output_stereo:
  assumes "framerate < 2 ^ 30" and "36 + length frames < 2 ^ 32"
  shows "wav_output 2 framerate frames =
     Inr (wav_bytes (le_bytes 4 (36 + length frames)) []
            (fmt_payload 1 2 framerate (framerate * 2 * 2) 4 16 [])
            (bytes_of ''data'' @ le_bytes 4 (length frames) @ frames))"
proof -
  have "length (fmt_payload 1 2 framerate (framerate * 2 * 2) 4 16 []) = 16"
    by (simp add: fmt_payload_def length_le_bytes)
  then show ?thesis
    using assms
    by (simp add: wav_output_def bind_e_def pack_I_def pack_H_def wav_bytes_def
        chunk_bytes_def fmt_payload_def del: le_bytes.simps)
qed

lemma wav_output_too_long:
  "2 ^ 32 \<le> 36 + length frames \<Longrightarrow> wav_output n framerate frames = Inl (StructError OutOfRange)"
  by (simp add: wav_output_def bind_e_def pack_I_def)


lemma convert_stereo_data:
  assumes sw: "getsampwidth wav = 1 \<or> getsampwidth wav = 2 \<or> getsampwidth wav = 3
      \<or> getsampwidth wav = 4"
    and ch: "getnchannels wav = 1 \<or> getnchannels wav = 2"
    and wf: "whole_frames wav"
  shows "\<exists>frames. length frames = 4 * wave_frames wav
           \<and> convert_to_stereo_16bit wav = wav_output 2 (getframerate wav) frames"
proof -
  from wf have len: "length (readframes wav)
      = getsampwidth wav * (getnchannels wav * wave_frames wav)"
    by (simp add: whole_frames_def mult_ac)
  from to_16bit_length [OF sw len] obtain f1
    where f1: "to_16bit (getsampwidth wav) (readframes wav) = Inr f1"
      and l1: "length f1 = 2 * (getnchannels wav * wave_frames wav)"
    by blast
  show ?thesis
  proof (cases "getnchannels wav = 1")
    case True
    with l1 have "length f1 = 2 * wave_frames wav"
      by simp
    from to_stereo_length [OF this] obtain f2
      where "to_stereo f1 = Inr f2" and "length f2 = 4 * wave_frames wav"
      by blast
    with f1 True show ?thesis
      by (auto simp add: convert_to_stereo_16bit_def bind_e_def)
  next
    case False
    with ch have "getnchannels wav = 2"
      by simp
    with f1 l1 show ?thesis
      by (auto simp add: convert_to_stereo_16bit_def bind_e_def)
  qed
qed

text \<open>C8, as stated: for every readable input of sample width 1 to 4 bytes and 1 or 2
  channels, the parser succeeds on the output of the conversion and the \<open>data\<close> chunk
  length is a multiple of 4. At a sample rate of \<open>2^30\<close> Hz the byte rate
  \<open>framerate * channels * 2\<close> does not fit the 32-bit field and \<open>struct.pack\<close> raises, so
  there is no output; with \<open>2^30\<close> frames the size fields do not fit either; and for a
  file cut short inside a frame the \<open>data\<close> chunk of the output has 6 bytes.\<close>

theorem convert_to_stereo_16bit_counterexample:
  "whole_frames fast_rate
   \<and> convert_to_stereo_16bit fast_rate = Inl (StructError OutOfRange)
   \<and> whole_frames very_long
   \<and> convert_to_stereo_16bit very_long = Inl (StructError OutOfRange)
   \<and> (\<exists>out. convert_to_stereo_16bit cut_short = Inr out \<and> le_nat (py_slice out 40 44) = 6
         \<and> le_nat (py_slice out 40 44) mod 4 \<noteq> 0)"
proof -
  have 1: "whole_frames fast_rate"
    by (simp add: whole_frames_def wave_frames_def fast_rate_def)
  have 2: "convert_to_stereo_16bit fast_rate = Inl (StructError OutOfRange)"
    by (simp add: convert_to_stereo_16bit_def fast_rate_def to_16bit_def bind_e_def
        wav_output_def pack_I_def pack_H_def)
  have 3: "whole_frames very_long"
    by (simp add: whole_frames_def wave_frames_def very_long_def)
  have "wave_frames very_long = 2 ^ 30"
    by (simp add: wave_frames_def very_long_def)
  moreover from convert_stereo_data [of very_long] 3 obtain frames
    where "length frames = 4 * wave_frames very_long"
      and c: "convert_to_stereo_16bit very_long = wav_output 2 (getframerate very_long) frames"
    by (auto simp add: very_long_def)
  ultimately have "(2::nat) ^ 32 \<le> 36 + length frames"
    by simp
  then have 4: "convert_to_stereo_16bit very_long = Inl (StructError OutOfRange)"
    unfolding c by (rule wav_output_too_long)
  have 5: "convert_to_stereo_16bit cut_short
      = Inr (bytes_of ''RIFF'' @ [42, 0, 0, 0] @ bytes_of ''WAVE'' @ bytes_of ''fmt ''
             @ [16, 0, 0, 0, 1, 0, 2, 0, 0x44, 0xAC, 0, 0, 0x10, 0xB1, 0x02, 0, 4, 0, 16, 0]
             @ bytes_of ''data'' @ [6, 0, 0, 0] @ [1, 0, 2, 0, 3, 0])"
    by (simp add: convert_to_stereo_16bit_def cut_short_def to_16bit_def bind_e_def
        wav_output_def pack_I_def pack_H_def le_bytes_2 le_bytes_4)
  have 6: "le_nat (py_slice (bytes_of ''RIFF'' @ [42, 0, 0, 0] @ bytes_of ''WAVE'' @ bytes_of ''fmt ''
             @ [16, 0, 0, 0, 1, 0, 2, 0, 0x44, 0xAC, 0, 0, 0x10, 0xB1, 0x02, 0, 4, 0, 16, 0]
             @ bytes_of ''data'' @ [6, 0, 0, 0] @ [1, 0, 2, 0, 3, 0]) 40 44) = 6"
    by (simp add: bytes_of_simps py_slice_def)
  show ?thesis
    using 1 2 3 4 5 6 by simp
qed


text \<open>C8, amended: for every input of sample width 1, 2, 3 or 4 bytes and 1 or 2 channels
  whose data are whole frames, whose sample rate is below \<open>2^30\<close> and whose number of
  frames \<open>n\<close> satisfies \<open>36 + 4 * n < 2^32\<close>, the conversion returns an output on which
  the parser returns exactly format 1, 2 channels, the input's sample rate and 16 bits;
  the \<open>data\<close> chunk of the output is at offset 36 and its length is \<open>4 * n\<close>, a multiple
  of 4, which is also the number of bytes after its header.\<close>

theorem convert_then_parse:
  assumes "getsampwidth wav = 1 \<or> getsampwidth wav = 2 \<or> getsampwidth wav = 3
      \<or> getsampwidth wav = 4"
    and "getnchannels wav = 1 \<or> getnchannels wav = 2"
    and "whole_frames wav"
    and "getframerate wav < 2 ^ 30"
    and "36 + 4 * wave_frames wav < 2 ^ 32"
  shows "\<exists>out. convert_to_stereo_16bit wav = Inr out
           \<and> parse_wav_header out
               = Some (Inr \<lparr>format = 1, channels = 2, sample_rate = getframerate wav,
                            bits = 16\<rparr>)
           \<and> py_slice out 36 40 = bytes_of ''data''
           \<and> le_nat (py_slice out 40 44) = 4 * wave_frames wav
           \<and> le_nat (py_slice out 40 44) mod 4 = 0
           \<and> length out = 44 + le_nat (py_slice out 40 44)"
proof -
  from convert_stereo_data [OF assms(1-3)] obtain frames
    where l: "length frames = 4 * wave_frames wav"
      and c: "convert_to_stereo_16bit wav = wav_output 2 (getframerate wav) frames"
    by blast
  define payload where "payload = fmt_payload 1 2 (getframerate wav) (getframerate wav * 2 * 2) 4 16 []"
  define rest where "rest = bytes_of ''data'' @ le_bytes 4 (length frames) @ frames"
  define out where "out = wav_bytes (le_bytes 4 (36 + length frames)) [] payload rest"
  have o: "convert_to_stereo_16bit wav = Inr out"
    using assms(4,5) l by (simp add: c wav_output_stereo out_def payload_def rest_def)
  have pl: "length payload = 16"
    by (simp add: payload_def fmt_payload_def length_le_bytes)
  then have "payload \<noteq> []" "length payload < 2 ^ 32"
    by auto
  then have "parse_wav_header out = Some (decode_fmt payload)"
    unfolding out_def by (intro parse_wav_bytes) (simp_all add: length_le_bytes)
  moreover have "decode_fmt payload
      = Inr \<lparr>format = 1, channels = 2, sample_rate = getframerate wav, bits = 16\<rparr>"
    unfolding payload_def using assms(4) by (intro decode_fmt_payload) simp_all
  ultimately have p: "parse_wav_header out
      = Some (Inr \<lparr>format = 1, channels = 2, sample_rate = getframerate wav, bits = 16\<rparr>)"
    by simp
  define pre where "pre = bytes_of ''RIFF'' @ le_bytes 4 (36 + length frames) @ bytes_of ''WAVE''
      @ bytes_of ''fmt '' @ le_bytes 4 16 @ payload"
  have e: "out = pre @ bytes_of ''data'' @ le_bytes 4 (length frames) @ frames"
    by (simp add: out_def wav_bytes_def chunk_bytes_def rest_def pre_def pl)
  have lp: "length pre = 36"
    by (simp add: pre_def pl length_le_bytes)
  have d: "py_slice out 36 40 = bytes_of ''data''"
    unfolding e using lp by (intro py_slice_mid) simp_all
  have "py_slice ((pre @ bytes_of ''data'') @ le_bytes 4 (length frames) @ frames) 40 44
      = le_bytes 4 (length frames)"
    using lp by (intro py_slice_mid) (simp_all add: length_le_bytes)
  then have "py_slice out 40 44 = le_bytes 4 (length frames)"
    by (simp add: e)
  moreover have "le_nat (le_bytes 4 (length frames)) = length frames"
    using assms(5) l by (intro le_nat_le_bytes) simp
  ultimately have n: "le_nat (py_slice out 40 44) = 4 * wave_frames wav"
    using l by simp
  have "length out = 44 + length frames"
    by (simp add: e lp length_le_bytes)
  with o p d n l show ?thesis
    by simp
qed

theorem convert_then_parse_witness:
  "whole_frames mono_8bit \<and> wave_frames mono_8bit = 3
   \<and> (\<exists>out. convert_to_stereo_16bit mono_8bit = Inr out
         \<and> parse_wav_header out
             = Some (Inr \<lparr>format = 1, channels = 2, sample_rate = 8000, bits = 16\<rparr>)
         \<and> le_nat (py_slice out 40 44) = 12 \<and> length out = 56)"
proof -
  have w: "whole_frames mono_8bit" "wave_frames mono_8bit = 3"
    by (simp_all add: whole_frames_def wave_frames_def mono_8bit_def)
  with convert_then_parse [of mono_8bit] show ?thesis
    by (auto simp add: mono_8bit_def)
qed

section \<open>The sample fifo in push order\<close>

lemma run_ops_log:
  "run_ops ops q popped = Some (q', out) \<Longrightarrow>
   popped @ entries q @ pushed ops = out @ entries q' \<and> capacity q' = capacity q
   \<and> (length (entries q) \<le> capacity q \<longrightarrow> length (entries q') \<le> capacity q)"
proof (induction ops q popped rule: run_ops.induct)
  case (1 q popped)
  then show ?case by simp
next
  case (2 f ops q popped)
  from "2.prems" obtain q1 where p: "push f q = Some q1"
    and r: "run_ops ops q1 popped = Some (q', out)"
    by (auto split: option.splits)
  from p have "entries q1 = entries q @ [f]" "capacity q1 = capacity q"
    "length (entries q1) \<le> capacity q"
    by (auto simp add: push_def split: if_splits)
  with "2.IH" [OF p r] show ?case
    by simp
next
  case (3 ops q popped)
  from "3.prems" obtain f q1 where p: "pop q = Some (f, q1)"
    and r: "run_ops ops q1 (popped @ [f]) = Some (q', out)"
    by (auto split: option.splits)
  from p have "entries q = f # entries q1" "capacity q1 = capacity q"
    by (auto simp add: pop_def split: list.splits)
  with "3.IH" [OF p refl r] show ?case
    by simp
qed

lemma run_ops_pushes:
  "length (entries q) + length fs \<le> capacity q \<Longrightarrow>
   run_ops (map Push fs @ ops) q popped = run_ops ops (q\<lparr>entries := entries q @ fs\<rparr>) popped"
  by (induction fs arbitrary: q) (simp_all add: push_def)

lemma run_ops_pops:
  "n \<le> length (entries q) \<Longrightarrow>
   run_ops (replicate n Pop) q popped
     = Some (q\<lparr>entries := drop n (entries q)\<rparr>, popped @ take n (entries q))"
proof (induction n arbitrary: q popped)
  case 0
  then show ?case by simp
next
  case (Suc n)
  then obtain f rest where e: "entries q = f # rest"
    by (cases "entries q") auto
  with Suc.prems have "n \<le> length (entries (q\<lparr>entries := rest\<rparr>))"
    by simp
  from Suc.IH [OF this] e show ?case
    by (simp add: pop_def)
qed

text \<open>C3. For every interleaving of pushes and pops that can take place on a fifo of
  capacity \<open>c\<close>, starting empty, the pushed frames are exactly the popped frames followed
  by the frames still in the fifo, in push order: nothing is lost, duplicated or
  reordered, and at most \<open>c\<close> frames are outstanding. A pop right after \<open>push(f)\<close> returns
  \<open>f\<close>, and \<open>N \<le> c\<close> pushes followed by \<open>N\<close> pops return the pushed sequence.\<close>

theorem sample_fifo_order:
  "(run_ops ops (new_fifo c) [] = Some (q, out) \<longrightarrow>
      pushed ops = out @ entries q \<and> length (entries q) \<le> c)
   \<and> (0 < c \<longrightarrow> run_ops [Push f, Pop] (new_fifo c) [] = Some (new_fifo c, [f]))
   \<and> (length fs \<le> c \<longrightarrow>
        run_ops (map Push fs @ replicate (length fs) Pop) (new_fifo c) []
          = Some (new_fifo c, fs))"
proof -
  have 1: "pushed ops = out @ entries q \<and> length (entries q) \<le> c"
    if "run_ops ops (new_fifo c) [] = Some (q, out)"
    using run_ops_log [OF that] by (simp add: new_fifo_def)
  have 2: "run_ops [Push f, Pop] (new_fifo c) [] = Some (new_fifo c, [f])" if "0 < c"
    using that by (simp add: new_fifo_def push_def pop_def)
  have 3: "run_ops (map Push fs @ replicate (length fs) Pop) (new_fifo c) []
      = Some (new_fifo c, fs)" if "length fs \<le> c"
    using that by (simp add: run_ops_pushes run_ops_pops new_fifo_def)
  from 1 2 3 show ?thesis
    by blast
qed

theorem sample_fifo_order_witness:
  "run_ops [Push 1, Push 2, Pop, Push 3, Pop] (new_fifo 2) []
     = Some (\<lparr>capacity = 2, entries = [3]\<rparr>, [1, 2])
   \<and> pushed [Push 1, Push 2, Pop, Push 3, Pop] = [1, 2] @ [3]
   \<and> run_ops [Push (pack_sample 1 2), Pop] (new_fifo 4) [] = Some (new_fifo 4, [0x10002])
   \<and> run_ops (map Push [1, 2, 3] @ replicate 3 Pop) (new_fifo 4) [] = Some (new_fifo 4, [1, 2, 3])"
  using sample_fifo_order [of "[Push 1, Push 2, Pop, Push 3, Pop]" 2
      "\<lparr>capacity = 2, entries = [3]\<rparr>" "[1, 2]" 7 "[]"]
    sample_fifo_order [of "[]" 4 "new_fifo 4" "[]" "pack_sample 1 2" "[1, 2, 3]"]
  by (simp add: new_fifo_def push_def pop_def pack_sample_arith eval_nat_numeral)

section \<open>The bit-transmission state machine\<close>

lemma i2s_slave_tx_code:
  "instructions i2s_slave_tx =
     [Wait 0 Pin 0, Set_x 15, Wait 1 Pin 1, Out_pins 1, Wait 0 Pin 1, Jmp_x_dec ''left_loop'',
      Wait 1 Pin 0, Set_x 15, Wait 1 Pin 1, Out_pins 1, Wait 0 Pin 1, Jmp_x_dec ''right_loop'']"
  by (simp add: instructions_def i2s_slave_tx_def)

lemma i2s_slave_tx_labels:
  "label_addr ''left_loop'' i2s_slave_tx = 2" "label_addr ''right_loop'' i2s_slave_tx = 8"
  by (simp_all add: i2s_slave_tx_def)

text \<open>The program has no terminal state: from each of its 12 instructions a cycle leads
  to one of its 12 instructions, whatever the pins.\<close>

lemma pio_step_stays_in_program:
  assumes "pc s < 12"
  shows "pc (pio_step cfg i2s_slave_tx gpio s) < 12"
proof -
  from assms consider "pc s = 0" | "pc s = 1" | "pc s = 2" | "pc s = 3" | "pc s = 4" | "pc s = 5"
    | "pc s = 6" | "pc s = 7" | "pc s = 8" | "pc s = 9" | "pc s = 10" | "pc s = 11"
    by atomize_elim arith
  then show ?thesis
    by cases (simp_all add: pio_step_def i2s_slave_tx_code i2s_slave_tx_labels Let_def)
qed

lemma step_set_x:
  "pio_step (I2SSlaveTX_config BCK_PIN WS_PIN SD_PIN) i2s_slave_tx g
     \<lparr>pc = 1, x = 0, osr = w, out_pin = False\<rparr>
   = \<lparr>pc = 2, x = 15, osr = w, out_pin = False\<rparr>"
  by (simp add: pio_step_def i2s_slave_tx_code I2SSlaveTX_config_def)

lemma step_wait_pin_1:
  "pio_step (I2SSlaveTX_config BCK_PIN WS_PIN SD_PIN) i2s_slave_tx (levels False True)
     \<lparr>pc = 2, x = 15, osr = w, out_pin = False\<rparr>
   = \<lparr>pc = 3, x = 15, osr = w, out_pin = False\<rparr>"
  by (simp add: pio_step_def i2s_slave_tx_code I2SSlaveTX_config_def levels_def BCK_PIN_def
      WS_PIN_def)

lemma step_out:
  "pio_step (I2SSlaveTX_config BCK_PIN WS_PIN SD_PIN) i2s_slave_tx g
     \<lparr>pc = 3, x = 15, osr = w, out_pin = False\<rparr>
   = \<lparr>pc = 4, x = 15, osr = push_bit 1 w, out_pin = bit w 31\<rparr>"
  by (simp add: pio_step_def i2s_slave_tx_code I2SSlaveTX_config_def bit_drop_bit_eq)

text \<open>C2. The claim has the machine leave its first wait only on word select low and
  shift one bit per rising edge of the bit clock. With \<open>in_base = bck_pin\<close>, the pin index
  0 of \<open>wait(0, pin, 0)\<close> is the bit clock and the pin index 1 of \<open>wait(1, pin, 1)\<close> is
  word select. So the machine leaves the first wait with word select high when the bit
  clock is low, stays in it with word select low when the bit clock is high, and with
  word select high and the bit clock held low throughout it shifts the top bit of the
  shift register onto the data pin within four cycles.\<close>

theorem i2s_slave_tx_follows_swapped_pins:
  "pio_step (I2SSlaveTX_config BCK_PIN WS_PIN SD_PIN) i2s_slave_tx (levels False True) (sm_init w)
     = (sm_init w)\<lparr>pc := 1\<rparr>
   \<and> pio_step (I2SSlaveTX_config BCK_PIN WS_PIN SD_PIN) i2s_slave_tx (levels True False) (sm_init w)
     = sm_init w
   \<and> pio_run (I2SSlaveTX_config BCK_PIN WS_PIN SD_PIN) i2s_slave_tx
        [levels False True, levels False True, levels False True, levels False True] (sm_init w)
     = \<lparr>pc = 4, x = 15, osr = push_bit 1 w, out_pin = bit w 31\<rparr>"
proof -
  let ?cfg = "I2SSlaveTX_config BCK_PIN WS_PIN SD_PIN"
  have 1: "pio_step ?cfg i2s_slave_tx (levels False True) (sm_init w)
      = \<lparr>pc = 1, x = 0, osr = w, out_pin = False\<rparr>"
    by (simp add: pio_step_def i2s_slave_tx_code I2SSlaveTX_config_def levels_def sm_init_def
        BCK_PIN_def WS_PIN_def)
  have 2: "pio_step ?cfg i2s_slave_tx (levels True False) (sm_init w) = sm_init w"
    by (simp add: pio_step_def i2s_slave_tx_code I2SSlaveTX_config_def levels_def sm_init_def
        BCK_PIN_def WS_PIN_def)
  have 3: "pio_run ?cfg i2s_slave_tx
        [levels False True, levels False True, levels False True, levels False True] (sm_init w)
      = \<lparr>pc = 4, x = 15, osr = push_bit 1 w, out_pin = bit w 31\<rparr>"
    by (simp only: pio_run.simps 1 step_set_x step_wait_pin_1 step_out)
  have "(sm_init w)\<lparr>pc := 1\<rparr> = \<lparr>pc = 1, x = 0, osr = w, out_pin = False\<rparr>"
    by (simp add: sm_init_def)
  with 1 2 3 show ?thesis
    by simp
qed

end
